theory Spec2Isabelle
  imports Main
begin

section \<open>The upload page of bouquet: data\<close>

text \<open>
  The model follows \<^verbatim>\<open>src/pages/Upload.tsx\<close>. The component keeps two pieces of
  React state the claims are about: \<^verbatim>\<open>transfers\<close>, an object from server names to
  \<^verbatim>\<open>TransferStats\<close>, and \<^verbatim>\<open>files\<close>, the selected files.

  Sizes are JavaScript numbers. \<^verbatim>\<open>File.size\<close> is a non-negative integer, and sums of such
  numbers are exact below \<open>2^53\<close>, so the model takes them as natural numbers.
\<close>

record TransferStats =
  enabled :: bool
  size_stats :: nat
  transferred :: nat

text \<open>
  Of a server (\<^verbatim>\<open>useServers\<close>) the page reads only \<^verbatim>\<open>name\<close>; of a \<^verbatim>\<open>File\<close> only
  \<^verbatim>\<open>size\<close>. The file's name is kept to tell files apart in a trace.
\<close>

record Server =
  name :: string

record File =
  name_file :: string
  size_file :: nat

type_synonym ledger = "string \<rightharpoonup> TransferStats"

text \<open>
  An updater given to \<^verbatim>\<open>setTransfers\<close> maps the previous ledger to the next one; where it
  throws, the result also names the entry whose absence made it throw.
\<close>

type_synonym updater = "ledger \<Rightarrow> string option \<times> ledger"

text \<open>
  Besides the three pieces of state, a state of the model holds the updater that
  \<^verbatim>\<open>upload\<close> has given to \<^verbatim>\<open>setTransfers\<close> and that React has not run yet: React queues an
  updater and runs it at its next render.
\<close>

record State =
  transfers :: ledger
  files :: "File list"
  cleanPrivateData :: bool
  queued :: "updater option"

text \<open>
  What lies outside the component is a parameter of the model:
  \<^item> \<open>removeExifData\<close>: the sanitizer; \<open>None\<close> when its promise rejects;
  \<^item> \<open>serverInfo\<close>: the object of \<^verbatim>\<open>useServerInfo\<close>, from a server name to the \<^verbatim>\<open>url\<close> read
    on line 55;
  \<^item> \<open>getUploadAuth n k\<close>, \<open>uploadBlob n k\<close>: whether the call of line 57 (line 58) made in
    the pass of the server named \<open>n\<close> for the file at position \<open>k\<close> of the batch resolves
    (\<open>True\<close>) or rejects (\<open>False\<close>). Server names are the keys of the ledger.
\<close>

record Env =
  removeExifData :: "File \<Rightarrow> File option"
  serverInfo :: "string \<rightharpoonup> string"
  getUploadAuth :: "string \<Rightarrow> nat \<Rightarrow> bool"
  uploadBlob :: "string \<Rightarrow> nat \<Rightarrow> bool"

text \<open>
  What happens during \<^verbatim>\<open>upload\<close>, in the order in which it happens: the call of
  \<^verbatim>\<open>setTransfers\<close> (line 41), the render in which React runs the queued updater (with the
  name of the missing entry if the updater throws), the calls of lines 57 and 58 at the
  moment they are made, the addition of line 60, and lines 63 and 64. Every event of a
  trace is paired with the state right after it, so a trace also lists every point at
  which the state can be observed.
\<close>

datatype event =
    SetTransfers
  | Render "string option"
  | GetUploadAuth string File
  | UploadBlob string string File
  | AddTransferred string File
  | InvalidateQueries string
  | SetFiles

datatype error =
    SanitizeRejected
  | TypeError string
  | AuthRejected string nat
  | UploadRejected string nat

datatype outcome = Fulfilled | Rejected error

type_synonym trace = "(event \<times> State) list"

section \<open>The ledger operations\<close>

text \<open>
  \<^verbatim>\<open>clearTransfers\<close> (lines 69 to 71) replaces the ledger by the result of a \<^verbatim>\<open>reduce\<close> over
  the servers that starts from the empty object. The effect of lines 73 to 75 runs it
  whenever \<^verbatim>\<open>servers\<close> changes.
\<close>

definition clearTransfers :: "Server list \<Rightarrow> State \<Rightarrow> State" where
  "clearTransfers servers st =
     st\<lparr>transfers :=
          foldl (\<lambda>acc s. acc(name s \<mapsto> \<lparr>enabled = True, size_stats = 0, transferred = 0\<rparr>))
            Map.empty servers\<rparr>"

text \<open>
  The \<^verbatim>\<open>onChange\<close> handler of a server's checkbox (lines 116 to 118). Like
  \<^verbatim>\<open>clearTransfers\<close> it ends right after its \<^verbatim>\<open>setTransfers\<close>, and React renders before anything
  else runs: both are modelled by the ledger they leave.
\<close>

definition onChange :: "Server \<Rightarrow> bool \<Rightarrow> State \<Rightarrow> State" where
  "onChange s checked st =
     st\<lparr>transfers :=
          (transfers st)(name s \<mapsto> \<lparr>enabled = checked, size_stats = 0, transferred = 0\<rparr>)\<rparr>"

text \<open>\<^verbatim>\<open>handleFileChange\<close> and \<^verbatim>\<open>handleDrop\<close> (lines 77 to 92) append a non-empty selection.\<close>

definition handleFileChange :: "File list \<Rightarrow> State \<Rightarrow> State" where
  "handleFileChange selectedFiles st =
     (if selectedFiles \<noteq> [] then st\<lparr>files := files st @ selectedFiles\<rparr> else st)"

section \<open>The upload\<close>

text \<open>Lines 27 to 34: the files are sanitized one after the other; a rejection ends \<^verbatim>\<open>upload\<close>.\<close>

fun sanitizeFiles :: "Env \<Rightarrow> bool \<Rightarrow> File list \<Rightarrow> File list option" where
  "sanitizeFiles env c [] = Some []"
| "sanitizeFiles env c (f # fs) =
     (if c then
        (case removeExifData env f of
           None \<Rightarrow> None
         | Some g \<Rightarrow> map_option ((#) g) (sanitizeFiles env c fs))
      else map_option ((#) f) (sanitizeFiles env c fs))"

text \<open>
  Lines 41 to 49, the updater given to \<^verbatim>\<open>setTransfers\<close>. The spread of line 42 copies the
  top level only: the \<^verbatim>\<open>TransferStats\<close> objects of \<^verbatim>\<open>newTransfers\<close>, of the previous state
  \<^verbatim>\<open>ut\<close> and of the \<^verbatim>\<open>transfers\<close> that \<^verbatim>\<open>upload\<close> closes over are the same objects, so the
  write of line 45 and the write of line 60 (made through the closure) land in the same
  entries. The model therefore keeps one ledger for the three.
  Reading \<^verbatim>\<open>enabled\<close> of a missing entry throws a TypeError inside the updater; the writes
  made until then stay, and the name of the missing entry is returned.
\<close>

fun setSizes :: "Server list \<Rightarrow> nat \<Rightarrow> updater" where
  "setSizes [] totalSize newTransfers = (None, newTransfers)"
| "setSizes (server # rest) totalSize newTransfers =
     (case newTransfers (name server) of
        None \<Rightarrow> (Some (name server), newTransfers)
      | Some e \<Rightarrow>
          if enabled e
          then setSizes rest totalSize (newTransfers(name server \<mapsto> e\<lparr>size_stats := totalSize\<rparr>))
          else setSizes rest totalSize newTransfers)"

text \<open>The test of line 52, \<^verbatim>\<open>transfers[server.name]?.enabled\<close>.\<close>

definition isEnabled :: "ledger \<Rightarrow> string \<Rightarrow> bool" where
  "isEnabled l n = (case l n of None \<Rightarrow> False | Some e \<Rightarrow> enabled e)"

text \<open>
  While \<^verbatim>\<open>upload\<close> waits for the call of line 57, React renders: if an updater is queued,
  it runs now. The calls of line 57 go to the signer and those of line 58 to the network,
  so they do not settle before React has had its turn. Nothing is queued any more at the
  later waits of the batch.
\<close>

definition awaitRender :: "State \<Rightarrow> trace \<times> State" where
  "awaitRender st =
     (case queued st of
        None \<Rightarrow> ([], st)
      | Some updater \<Rightarrow>
          (case updater (transfers st) of
             (thrown, newTransfers) \<Rightarrow>
               ([(Render thrown, st\<lparr>transfers := newTransfers, queued := None\<rparr>)],
                st\<lparr>transfers := newTransfers, queued := None\<rparr>)))"

text \<open>
  Lines 56 to 62, the loop over the files in the pass of the server named \<open>n\<close>; \<open>k\<close> is the
  position of the next file. There is no \<^verbatim>\<open>try\<close> in \<^verbatim>\<open>upload\<close>: a rejected call rejects
  the promise of \<^verbatim>\<open>upload\<close> at that point. The result is the trace, the state at the end and
  the outcome.
\<close>

fun fileLoop ::
  "Env \<Rightarrow> string \<Rightarrow> string \<Rightarrow> nat \<Rightarrow> File list \<Rightarrow> State \<Rightarrow> trace \<times> State \<times> outcome" where
  "fileLoop env n url k [] st = ([], st, Fulfilled)"
| "fileLoop env n url k (file # rest) st =
     (case awaitRender st of
        (rendered, st0) \<Rightarrow>
          if \<not> getUploadAuth env n k
          then ((GetUploadAuth n file, st) # rendered, st0, Rejected (AuthRejected n k))
          else if \<not> uploadBlob env n k
          then ((GetUploadAuth n file, st) # rendered @ [(UploadBlob n url file, st0)], st0,
                Rejected (UploadRejected n k))
          else
            (case transfers st0 n of
               None \<Rightarrow>
                 ((GetUploadAuth n file, st) # rendered @ [(UploadBlob n url file, st0)], st0,
                  Rejected (TypeError n))
             | Some e \<Rightarrow>
                 (let st' = st0\<lparr>transfers :=
                                (transfers st0)(n \<mapsto> e\<lparr>transferred := transferred e + size_file file\<rparr>)\<rparr>
                  in case fileLoop env n url (Suc k) rest st' of
                       (tr, st'', out) \<Rightarrow>
                         ((GetUploadAuth n file, st) # rendered @ (UploadBlob n url file, st0)
                            # (AddTransferred n file, st') # tr, st'', out))))"

text \<open>Lines 52 to 64, the body of the loop over the servers.\<close>

definition serverPass :: "Env \<Rightarrow> File list \<Rightarrow> Server \<Rightarrow> State \<Rightarrow> trace \<times> State \<times> outcome" where
  "serverPass env filesToUpload server st =
     (if \<not> isEnabled (transfers st) (name server) then ([], st, Fulfilled)
      else
        (case serverInfo env (name server) of
           None \<Rightarrow> ([], st, Rejected (TypeError (name server)))
         | Some serverUrl \<Rightarrow>
             (case fileLoop env (name server) serverUrl 0 filesToUpload st of
                (tr, st1, Rejected e) \<Rightarrow> (tr, st1, Rejected e)
              | (tr, st1, Fulfilled) \<Rightarrow>
                  (tr @ [(InvalidateQueries (name server), st1), (SetFiles, st1\<lparr>files := []\<rparr>)],
                   st1\<lparr>files := []\<rparr>, Fulfilled))))"

text \<open>Lines 51 to 65, the loop over the servers.\<close>

fun serverLoop :: "Env \<Rightarrow> File list \<Rightarrow> Server list \<Rightarrow> State \<Rightarrow> trace \<times> State \<times> outcome" where
  "serverLoop env filesToUpload [] st = ([], st, Fulfilled)"
| "serverLoop env filesToUpload (server # rest) st =
     (case serverPass env filesToUpload server st of
        (tr, st1, Rejected e) \<Rightarrow> (tr, st1, Rejected e)
      | (tr, st1, Fulfilled) \<Rightarrow>
          (case serverLoop env filesToUpload rest st1 of
             (tr', st2, out) \<Rightarrow> (tr @ tr', st2, out)))"

text \<open>Line 38: the sum of the sizes, a \<^verbatim>\<open>reduce\<close> from 0.\<close>

definition totalSize :: "File list \<Rightarrow> nat" where
  "totalSize filesToUpload = foldl (\<lambda>acc f. acc + size_file f) 0 filesToUpload"

text \<open>
  Lines 26 to 67. Line 41 hands the updater to React and changes nothing yet; lines 51 to
  57 then run without a wait up to the first call of \<^verbatim>\<open>getUploadAuth\<close>, so the ledger is not
  sized when that call is made. If the batch makes no call, the updater is still queued
  when \<^verbatim>\<open>upload\<close> ends. A TypeError of the updater is raised inside React, not inside
  \<^verbatim>\<open>upload\<close>, which goes on. Nothing is queued when a batch starts (React has rendered since
  the last event), and a user event between two steps of a running batch is not part of
  the model. \<^verbatim>\<open>setFiles([])\<close> replaces the selection at a render as well; \<^verbatim>\<open>upload\<close> reads the
  selection on line 28 only, and the model writes it where line 64 is.
\<close>

definition upload :: "Env \<Rightarrow> Server list \<Rightarrow> State \<Rightarrow> trace \<times> State \<times> outcome" where
  "upload env servers st =
     (case sanitizeFiles env (cleanPrivateData st) (files st) of
        None \<Rightarrow> ([], st, Rejected SanitizeRejected)
      | Some filesToUpload \<Rightarrow>
          if filesToUpload = [] then ([], st, Fulfilled)
          else
            (let st1 = st\<lparr>queued := Some (setSizes servers (totalSize filesToUpload))\<rparr>
             in case serverLoop env filesToUpload servers st1 of
                  (tr, st2, out) \<Rightarrow> ((SetTransfers, st1) # tr, st2, out)))"

section \<open>The entries as objects in a store\<close>

text \<open>
  In the running component a ledger is an object from names to references, and the
  \<^verbatim>\<open>TransferStats\<close> objects live in a store. \<^verbatim>\<open>clearTransfers\<close> and the checkbox handler
  create a new object for every entry they write (the object literals of lines 70 and
  117); the updater of line 41 and line 60 write through references they find.
  \<open>view m h\<close> is the ledger seen through the references \<open>m\<close> in the store \<open>h\<close>, and
  \<open>separate\<close> says that no two names hold the same reference and that every reference in
  use has been allocated.
\<close>

type_synonym ref = nat

type_synonym store = "ref \<Rightarrow> TransferStats"

type_synonym refs = "string \<rightharpoonup> ref"

record Objects =
  refsOf :: refs
  store :: store
  nextRef :: ref

definition view :: "refs \<Rightarrow> store \<Rightarrow> ledger" where
  "view m h = (\<lambda>n. map_option h (m n))"

definition separate :: "Objects \<Rightarrow> bool" where
  "separate ob = (inj_on (refsOf ob) (dom (refsOf ob)) \<and> (\<forall>r\<in>ran (refsOf ob). r < nextRef ob))"

text \<open>An object literal under the name \<open>n\<close>: a new reference, written into a copy of the object.\<close>

definition newObject :: "TransferStats \<Rightarrow> string \<Rightarrow> Objects \<Rightarrow> Objects" where
  "newObject v n ob =
     \<lparr>refsOf = (refsOf ob)(n \<mapsto> nextRef ob), store = (store ob)(nextRef ob := v),
      nextRef = Suc (nextRef ob)\<rparr>"

text \<open>Lines 69 to 71 and lines 116 to 118 on the store.\<close>

definition clearTransfersObjects :: "Server list \<Rightarrow> Objects \<Rightarrow> Objects" where
  "clearTransfersObjects servers ob =
     foldl (\<lambda>acc s. newObject \<lparr>enabled = True, size_stats = 0, transferred = 0\<rparr> (name s) acc)
       (ob\<lparr>refsOf := Map.empty\<rparr>) servers"

definition onChangeObjects :: "Server \<Rightarrow> bool \<Rightarrow> Objects \<Rightarrow> Objects" where
  "onChangeObjects s checked ob =
     newObject \<lparr>enabled = checked, size_stats = 0, transferred = 0\<rparr> (name s) ob"

text \<open>
  Lines 42 to 48 on the store: \<^verbatim>\<open>newTransfers\<close> is a copy of \<^verbatim>\<open>ut\<close> and holds the references
  of \<^verbatim>\<open>ut\<close>; line 45 writes through them.
\<close>

fun setSizesObjects :: "Server list \<Rightarrow> nat \<Rightarrow> refs \<Rightarrow> store \<Rightarrow> string option \<times> store" where
  "setSizesObjects [] totalSize' newTransfers h = (None, h)"
| "setSizesObjects (server # rest) totalSize' newTransfers h =
     (case newTransfers (name server) of
        None \<Rightarrow> (Some (name server), h)
      | Some r \<Rightarrow>
          if enabled (h r)
          then setSizesObjects rest totalSize' newTransfers (h(r := (h r)\<lparr>size_stats := totalSize'\<rparr>))
          else setSizesObjects rest totalSize' newTransfers h)"

text \<open>Line 60 on the store, through the references \<open>m\<close> of the \<^verbatim>\<open>transfers\<close> of the closure.\<close>

definition addTransferredObjects :: "string \<Rightarrow> File \<Rightarrow> refs \<Rightarrow> store \<Rightarrow> store option" where
  "addTransferredObjects n file m h =
     (case m n of
        None \<Rightarrow> None
      | Some r \<Rightarrow> Some (h(r := (h r)\<lparr>transferred := transferred (h r) + size_file file\<rparr>)))"

section \<open>Reading a trace\<close>

text \<open>
  The definitions of this section are not part of the component: they name what the
  theorems below say about a run of \<open>upload\<close>.

  \<open>entryPlus x\<close> adds \<open>x\<close> to the \<open>transferred\<close> counter of an entry, if there is one.
\<close>

definition entryPlus :: "nat \<Rightarrow> TransferStats option \<Rightarrow> TransferStats option" where
  "entryPlus x eo = map_option (\<lambda>e. e\<lparr>transferred := transferred e + x\<rparr>) eo"

text \<open>The server in whose pass an event happens, and the server in whose pass a rejection arose.\<close>

fun destOf :: "event \<Rightarrow> string option" where
  "destOf SetTransfers = None"
| "destOf (Render t) = None"
| "destOf (GetUploadAuth n f) = Some n"
| "destOf (UploadBlob n u f) = Some n"
| "destOf (AddTransferred n f) = Some n"
| "destOf (InvalidateQueries n) = Some n"
| "destOf SetFiles = None"

fun errServer :: "error \<Rightarrow> string option" where
  "errServer SanitizeRejected = None"
| "errServer (TypeError n) = Some n"
| "errServer (AuthRejected n k) = Some n"
| "errServer (UploadRejected n k) = Some n"

text \<open>The counters of the entry of a name, 0 when the name has no entry.\<close>

definition transferredOf :: "string \<Rightarrow> State \<Rightarrow> nat" where
  "transferredOf n st = (case transfers st n of None \<Rightarrow> 0 | Some e \<Rightarrow> transferred e)"

definition sizeOf :: "string \<Rightarrow> State \<Rightarrow> nat" where
  "sizeOf n st = (case transfers st n of None \<Rightarrow> 0 | Some e \<Rightarrow> size_stats e)"

text \<open>The number of bytes an event adds to the \<open>transferred\<close> counter of the server named \<open>n\<close>.\<close>

fun added :: "string \<Rightarrow> event \<Rightarrow> nat" where
  "added n (AddTransferred m f) = (if m = n then size_file f else 0)"
| "added n ev = 0"

text \<open>
  What each event does to the state: \<^verbatim>\<open>setTransfers\<close> queues an updater, the calls and the
  invalidation change nothing, the addition of line 60 changes one counter,
  \<^verbatim>\<open>setFiles([])\<close> empties the selection, and the render changes no selection and no
  \<open>transferred\<close> counter. \<open>steps st tr\<close> holds when every event of \<open>tr\<close>, started in \<open>st\<close>,
  has this effect; \<open>lastState st tr\<close> is the state at the end of \<open>tr\<close>.
\<close>

fun effect :: "event \<Rightarrow> State \<Rightarrow> State \<Rightarrow> bool" where
  "effect SetTransfers s s' = (\<exists>u. s' = s\<lparr>queued := Some u\<rparr>)"
| "effect (Render t) s s' =
     (files s' = files s \<and> cleanPrivateData s' = cleanPrivateData s
      \<and> (\<forall>n. map_option transferred (transfers s' n) = map_option transferred (transfers s n)))"
| "effect (GetUploadAuth n f) s s' = (s' = s)"
| "effect (UploadBlob n u f) s s' = (s' = s)"
| "effect (AddTransferred n f) s s' =
     (\<exists>e. transfers s n = Some e
          \<and> s' = s\<lparr>transfers := (transfers s)(n \<mapsto> e\<lparr>transferred := transferred e + size_file f\<rparr>)\<rparr>)"
| "effect (InvalidateQueries n) s s' = (s' = s)"
| "effect SetFiles s s' = (s' = s\<lparr>files := []\<rparr>)"

fun steps :: "State \<Rightarrow> trace \<Rightarrow> bool" where
  "steps st [] = True"
| "steps st ((ev, st') # tr) = (effect ev st st' \<and> steps st' tr)"

definition lastState :: "State \<Rightarrow> trace \<Rightarrow> State" where
  "lastState st tr = last (st # map snd tr)"


text \<open>
  Two properties of the ledgers the component can reach: every server of the list has an
  entry, and an entry that is not enabled is \<open>{enabled: false, size: 0, transferred: 0}\<close>.
\<close>

definition covered :: "Server list \<Rightarrow> State \<Rightarrow> bool" where
  "covered servers st = (\<forall>s\<in>set servers. transfers st (name s) \<noteq> None)"

definition inert :: "State \<Rightarrow> bool" where
  "inert st = (\<forall>n e. transfers st n = Some e \<longrightarrow> \<not> enabled e \<longrightarrow>
                 e = \<lparr>enabled = False, size_stats = 0, transferred = 0\<rparr>)"

section \<open>Concrete data for the examples\<close>

definition srvA :: Server where
  "srvA = \<lparr>name = ''A''\<rparr>"

definition srvB :: Server where
  "srvB = \<lparr>name = ''B''\<rparr>"

definition file50 :: File where
  "file50 = \<lparr>name_file = ''c.jpg'', size_file = 50\<rparr>"

definition file100 :: File where
  "file100 = \<lparr>name_file = ''a.jpg'', size_file = 100\<rparr>"

definition file200 :: File where
  "file200 = \<lparr>name_file = ''b.jpg'', size_file = 200\<rparr>"

text \<open>The state of a freshly mounted component: no ledger entry, no file, the box ticked.\<close>

definition initialState :: State where
  "initialState =
     \<lparr>transfers = Map.empty, files = [], cleanPrivateData = True, queued = None\<rparr>"

text \<open>An environment in which every call resolves, and one in which server A refuses blobs.\<close>

definition envOk :: Env where
  "envOk = \<lparr>removeExifData = Some, serverInfo = (\<lambda>n. Some (''https://'' @ n)),
            getUploadAuth = (\<lambda>n k. True), uploadBlob = (\<lambda>n k. True)\<rparr>"

definition envFailA :: Env where
  "envFailA = \<lparr>removeExifData = Some, serverInfo = (\<lambda>n. Some (''https://'' @ n)),
               getUploadAuth = (\<lambda>n k. True), uploadBlob = (\<lambda>n k. n \<noteq> ''A'')\<rparr>"

text \<open>
  An environment in which the transport of the second file of a batch fails, and one in
  which server A refuses to authorize.
\<close>

definition envFailSecond :: Env where
  "envFailSecond = \<lparr>removeExifData = Some, serverInfo = (\<lambda>n. Some (''https://'' @ n)),
               getUploadAuth = (\<lambda>n k. True), uploadBlob = (\<lambda>n k. k \<noteq> 1)\<rparr>"

definition envNoAuth :: Env where
  "envNoAuth = \<lparr>removeExifData = Some, serverInfo = (\<lambda>n. Some (''https://'' @ n)),
                getUploadAuth = (\<lambda>n k. n \<noteq> ''A''), uploadBlob = (\<lambda>n k. True)\<rparr>"

text \<open>The servers A and B (or A alone) freshly reset, with a selection of files.\<close>

definition stAB :: "File list \<Rightarrow> State" where
  "stAB fs = handleFileChange fs (clearTransfers [srvA, srvB] initialState)"

definition stA :: "File list \<Rightarrow> State" where
  "stA fs = handleFileChange fs (clearTransfers [srvA] initialState)"

text \<open>Two files of 100 and 200 bytes, server A ticked and server B unticked.\<close>

definition stOneOff :: State where
  "stOneOff = onChange srvB False (stAB [file100, file200])"

text \<open>
  Four runs: one without failure, one whose first transport fails, one whose first
  authorization fails, one whose second transport fails.
\<close>

definition runOneOff :: "trace \<times> State \<times> outcome" where
  "runOneOff = upload envOk [srvA, srvB] stOneOff"

definition runFailA :: "trace \<times> State \<times> outcome" where
  "runFailA = upload envFailA [srvA, srvB] (stAB [file50])"


definition runFailSecond :: "trace \<times> State \<times> outcome" where
  "runFailSecond = upload envFailSecond [srvA, srvB] (stAB [file50, file200])"

section \<open>Evaluating the examples\<close>

lemmas data_defs = srvA_def srvB_def file50_def file100_def file200_def initialState_def
  envOk_def envFailA_def envFailSecond_def envNoAuth_def
  stAB_def stA_def stOneOff_def onChange_def

lemmas run_defs = upload_def serverPass_def fileLoop.simps(2) awaitRender_def isEnabled_def
  totalSize_def clearTransfers_def handleFileChange_def Let_def

section \<open>Resetting and toggling\<close>

lemma foldl_fresh:
  "foldl (\<lambda>acc s. acc(name s \<mapsto> v)) m servers n =
     (if n \<in> name ` set servers then Some v else m n)"
  by (induction servers arbitrary: m) auto

text \<open>
  Claim C8. Whenever the list of servers changes, the effect runs \<open>clearTransfers\<close> on the
  new list: every server of the list gets the entry \<open>{enabled: true, size: 0,
  transferred: 0}\<close>, whatever the ledger held before, and no other name keeps an entry.
\<close>

theorem clearTransfers_resets:
  "transfers (clearTransfers servers st) =
     (\<lambda>n. if n \<in> name ` set servers
          then Some \<lparr>enabled = True, size_stats = 0, transferred = 0\<rparr> else None)"
  by (rule ext) (simp add: clearTransfers_def foldl_fresh)

theorem clearTransfers_resets_witness:
  "transfers (clearTransfers [srvA, srvB]
       (onChange srvA False (clearTransfers [srvA] initialState))) ''A''
     = Some \<lparr>enabled = True, size_stats = 0, transferred = 0\<rparr>
   \<and> transfers (clearTransfers [srvB]
       (onChange srvA False (clearTransfers [srvA] initialState))) ''A'' = None"
  using clearTransfers_resets [of "[srvA, srvB]" "onChange srvA False (clearTransfers [srvA] initialState)"]
    clearTransfers_resets [of "[srvB]" "onChange srvA False (clearTransfers [srvA] initialState)"]
  by (simp add: srvA_def srvB_def)

text \<open>
  Claim C9. Running \<open>clearTransfers\<close> twice in a row with the same list of servers gives
  the state that running it once gives.
\<close>

theorem clearTransfers_idempotent:
  "clearTransfers servers (clearTransfers servers st) = clearTransfers servers st"
  by (simp add: clearTransfers_def)

text \<open>
  Claim C10. Ticking or unticking the box of a server replaces its entry by
  \<open>{enabled: checked, size: 0, transferred: 0}\<close>, in both directions, and leaves every
  other entry and the selected files as they were.
\<close>

theorem onChange_replaces_entry:
  "transfers (onChange s checked st) (name s)
     = Some \<lparr>enabled = checked, size_stats = 0, transferred = 0\<rparr>
   \<and> (\<forall>n. n \<noteq> name s \<longrightarrow> transfers (onChange s checked st) n = transfers st n)
   \<and> files (onChange s checked st) = files st"
  by (simp add: onChange_def)

theorem onChange_replaces_entry_witness:
  "transfers (onChange srvA True
       \<lparr>transfers = [''A'' \<mapsto> \<lparr>enabled = False, size_stats = 0, transferred = 0\<rparr>,
                     ''B'' \<mapsto> \<lparr>enabled = True, size_stats = 300, transferred = 100\<rparr>],
        files = [file100], cleanPrivateData = True, queued = None\<rparr>) ''B''
     = Some \<lparr>enabled = True, size_stats = 300, transferred = 100\<rparr>"
  using onChange_replaces_entry [of srvA True
       "\<lparr>transfers = [''A'' \<mapsto> \<lparr>enabled = False, size_stats = 0, transferred = 0\<rparr>,
                     ''B'' \<mapsto> \<lparr>enabled = True, size_stats = 300, transferred = 100\<rparr>],
        files = [file100], cleanPrivateData = True, queued = None\<rparr>"]
  by (simp add: srvA_def)

section \<open>Ledgers and stores\<close>

text \<open>
  Writing through a reference writes the entry of one name as long as the names hold
  separate objects, and they do: the functions on ledgers compute the view of what the
  component does on the store. After the render that runs the updater of line 41 the state
  holds the references of \<^verbatim>\<open>ut\<close>, which
  are those of the closure, so the state and the closure show the same ledger during a batch.
\<close>

lemma view_write:
  assumes "inj_on m (dom m)" and "m n = Some r"
  shows "view m (h(r := v)) = (view m h)(n \<mapsto> v)"
proof
  fix k
  show "view m (h(r := v)) k = ((view m h)(n \<mapsto> v)) k"
  proof (cases "m k")
    case None
    with assms(2) show ?thesis by (auto simp: view_def)
  next
    case (Some r')
    have "r' = r \<longleftrightarrow> k = n"
      using assms Some by (auto dest: inj_onD [where x = k and y = n])
    with Some assms(2) show ?thesis by (auto simp: view_def)
  qed
qed

lemma newObject_view:
  assumes "separate ob"
  shows "view (refsOf (newObject v n ob)) (store (newObject v n ob))
           = (view (refsOf ob) (store ob))(n \<mapsto> v)
         \<and> separate (newObject v n ob)"
proof -
  from assms have lt: "\<And>k r. refsOf ob k = Some r \<Longrightarrow> r < nextRef ob"
    and inj: "inj_on (refsOf ob) (dom (refsOf ob))"
    by (auto simp: separate_def ran_def)
  have "view (refsOf (newObject v n ob)) (store (newObject v n ob)) k
           = ((view (refsOf ob) (store ob))(n \<mapsto> v)) k" for k
    using lt [of k] by (cases "refsOf ob k") (auto simp: view_def newObject_def)
  moreover have "inj_on (refsOf (newObject v n ob)) (dom (refsOf (newObject v n ob)))"
  proof (rule inj_onI)
    fix a b
    assume a: "a \<in> dom (refsOf (newObject v n ob))" and b: "b \<in> dom (refsOf (newObject v n ob))"
      and eq: "refsOf (newObject v n ob) a = refsOf (newObject v n ob) b"
    show "a = b"
    proof (cases "a = n \<or> b = n")
      case True
      with a b eq lt [of a] lt [of b] show ?thesis
        by (auto simp: newObject_def split: if_splits)
    next
      case False
      with a b eq have "a \<in> dom (refsOf ob)" "b \<in> dom (refsOf ob)" "refsOf ob a = refsOf ob b"
        by (auto simp: newObject_def)
      with inj show ?thesis by (metis inj_onD)
    qed
  qed
  moreover have "\<forall>r\<in>ran (refsOf (newObject v n ob)). r < nextRef (newObject v n ob)"
    using lt by (auto simp: newObject_def ran_def split: if_splits intro: less_SucI)
  ultimately show ?thesis by (auto simp: separate_def)
qed

lemma clearTransfersObjects_view:
  "view (refsOf (clearTransfersObjects servers ob)) (store (clearTransfersObjects servers ob))
     = transfers (clearTransfers servers st)
   \<and> separate (clearTransfersObjects servers ob)"
proof -
  have "view (refsOf (foldl (\<lambda>acc s. newObject v (name s) acc) a servers))
             (store (foldl (\<lambda>acc s. newObject v (name s) acc) a servers))
          = foldl (\<lambda>acc s. acc(name s \<mapsto> v)) (view (refsOf a) (store a)) servers
        \<and> separate (foldl (\<lambda>acc s. newObject v (name s) acc) a servers)"
    if "separate a" for a v
    using that
  proof (induction servers arbitrary: a)
    case Nil
    then show ?case by simp
  next
    case (Cons s servers)
    from newObject_view [OF Cons.prems, of v "name s"] Cons.IH [of "newObject v (name s) a"]
    show ?case by simp
  qed
  moreover have "separate (ob\<lparr>refsOf := Map.empty\<rparr>)" by (simp add: separate_def)
  moreover have "view (refsOf (ob\<lparr>refsOf := Map.empty\<rparr>)) (store (ob\<lparr>refsOf := Map.empty\<rparr>)) = Map.empty"
    by (simp add: view_def)
  ultimately show ?thesis
    by (simp add: clearTransfersObjects_def clearTransfers_def)
qed

lemma onChangeObjects_view:
  assumes "separate ob" and "view (refsOf ob) (store ob) = transfers st"
  shows "view (refsOf (onChangeObjects s checked ob)) (store (onChangeObjects s checked ob))
           = transfers (onChange s checked st)
         \<and> separate (onChangeObjects s checked ob)"
  using newObject_view [OF assms(1)] assms(2) by (simp add: onChangeObjects_def onChange_def)

lemma setSizesObjects_view:
  assumes "inj_on m (dom m)"
  shows "fst (setSizesObjects ss t m h) = fst (setSizes ss t (view m h))
       \<and> view m (snd (setSizesObjects ss t m h)) = snd (setSizes ss t (view m h))"
proof (induction ss arbitrary: h)
  case Nil
  show ?case by simp
next
  case (Cons s ss)
  show ?case
  proof (cases "m (name s)")
    case None
    then show ?thesis by (simp add: view_def)
  next
    case (Some r)
    then have v: "view m h (name s) = Some (h r)" by (simp add: view_def)
    show ?thesis
    proof (cases "enabled (h r)")
      case False
      with Some v Cons.IH [of h] show ?thesis by simp
    next
      case True
      define h1 where "h1 = h(r := (h r)\<lparr>size_stats := t\<rparr>)"
      have w: "view m h1 = (view m h)(name s \<mapsto> (h r)\<lparr>size_stats := t\<rparr>)"
        unfolding h1_def by (rule view_write [OF assms Some])
      have a: "setSizesObjects (s # ss) t m h = setSizesObjects ss t m h1"
        using Some True by (simp add: h1_def)
      have b: "setSizes (s # ss) t (view m h) = setSizes ss t (view m h1)"
        using v True by (simp add: w)
      show ?thesis unfolding a b by (rule Cons.IH)
    qed
  qed
qed

lemma addTransferredObjects_view:
  assumes "inj_on m (dom m)"
  shows "map_option (view m) (addTransferredObjects n file m h)
           = (case view m h n of
                None \<Rightarrow> None
              | Some e \<Rightarrow> Some ((view m h)(n \<mapsto> e\<lparr>transferred := transferred e + size_file file\<rparr>)))"
proof (cases "m n")
  case None
  then show ?thesis by (simp add: addTransferredObjects_def view_def)
next
  case (Some r)
  then have v: "view m h n = Some (h r)" by (simp add: view_def)
  from view_write [OF assms Some] Some v show ?thesis
    by (simp add: addTransferredObjects_def)
qed

section \<open>Sums of sizes and counters\<close>

lemma totalSize_Nil [simp]: "totalSize [] = 0"
  by (simp add: totalSize_def)

lemma foldl_add_size: "foldl (\<lambda>acc f. acc + size_file f) a fs = a + totalSize fs"
  unfolding totalSize_def
proof (induction fs arbitrary: a)
  case Nil
  show ?case by simp
next
  case (Cons f fs)
  show ?case using Cons.IH [of "a + size_file f"] Cons.IH [of "size_file f"] by simp
qed

lemma totalSize_Cons [simp]: "totalSize (f # fs) = size_file f + totalSize fs"
  using foldl_add_size [of "size_file f" fs] by (simp add: totalSize_def)

lemma totalSize_sum_list: "totalSize fs = sum_list (map size_file fs)"
  by (induction fs) auto

lemma entryPlus_0 [simp]: "entryPlus 0 eo = eo"
  by (cases eo) (auto simp: entryPlus_def)

lemma entryPlus_Some: "entryPlus x (Some e) = Some (e\<lparr>transferred := transferred e + x\<rparr>)"
  by (simp add: entryPlus_def)

lemma entryPlus_None [simp]: "entryPlus x None = None"
  by (simp add: entryPlus_def)

lemma isEnabled_entryPlus_eq:
  "l' m = entryPlus a (l m) \<Longrightarrow> isEnabled l' m = isEnabled l m"
  by (cases "l m") (auto simp: isEnabled_def entryPlus_def)

lemma lastState_simps [simp]:
  "lastState st [] = st"
  "lastState st ((ev, s) # tr) = lastState s tr"
  by (simp_all add: lastState_def)

lemma lastState_append: "lastState st (a @ b) = lastState (lastState st a) b"
  by (induction a arbitrary: st) auto

lemma steps_append: "steps st (a @ b) = (steps st a \<and> steps (lastState st a) b)"
  by (induction a arbitrary: st) auto

section \<open>The loop over the files\<close>

text \<open>
  Once nothing is queued a wait changes nothing. The lemmas on the loops are stated for
  such a state; a batch reaches one with its first call.
\<close>

lemma awaitRender_settled [simp]: "queued st = None \<Longrightarrow> awaitRender st = ([], st)"
  by (simp add: awaitRender_def)

lemma fileLoop_settled:
  "queued st = None \<Longrightarrow>
   fileLoop env n url k (file # rest) st =
     (if \<not> getUploadAuth env n k
      then ([(GetUploadAuth n file, st)], st, Rejected (AuthRejected n k))
      else if \<not> uploadBlob env n k
      then ([(GetUploadAuth n file, st), (UploadBlob n url file, st)], st,
            Rejected (UploadRejected n k))
      else
        (case transfers st n of
           None \<Rightarrow>
             ([(GetUploadAuth n file, st), (UploadBlob n url file, st)], st,
              Rejected (TypeError n))
         | Some e \<Rightarrow>
             (let st' = st\<lparr>transfers :=
                            (transfers st)(n \<mapsto> e\<lparr>transferred := transferred e + size_file file\<rparr>)\<rparr>
              in case fileLoop env n url (Suc k) rest st' of
                   (tr, st'', out) \<Rightarrow>
                     ((GetUploadAuth n file, st) # (UploadBlob n url file, st)
                        # (AddTransferred n file, st') # tr, st'', out))))"
  by (simp split: option.splits)

declare fileLoop.simps(2) [simp del]

lemma fileLoop_states:
  assumes "fileLoop env n url k fs st = (tr, st', out)" and "s \<in> insert st' (snd ` set tr)"
    and "queued st = None"
  shows "files s = files st \<and> cleanPrivateData s = cleanPrivateData st \<and> queued s = None
     \<and> (\<forall>m. m \<noteq> n \<longrightarrow> transfers s m = transfers st m)
     \<and> (\<exists>x\<le>totalSize fs. transfers s n = entryPlus x (transfers st n))"
  using assms
proof (induction fs arbitrary: k st tr st' out)
  case Nil
  then show ?case by (auto intro: exI [of _ 0])
next
  case (Cons f fs)
  show ?case
  proof (cases "getUploadAuth env n k \<and> uploadBlob env n k \<and> transfers st n \<noteq> None")
    case False
    with Cons.prems have "s = st"
      by (auto simp: fileLoop_settled split: if_splits option.splits)
    with Cons.prems(3) show ?thesis by (auto intro: exI [of _ 0])
  next
    case True
    then obtain e where e: "transfers st n = Some e" by auto
    define st1 where "st1 = st\<lparr>transfers := (transfers st)(n \<mapsto> e\<lparr>transferred := transferred e + size_file f\<rparr>)\<rparr>"
    obtain tr1 st2 out1 where r: "fileLoop env n url (Suc k) fs st1 = (tr1, st2, out1)"
      by (cases "fileLoop env n url (Suc k) fs st1") auto
    have q1: "queued st1 = None" using Cons.prems by (simp add: st1_def)
    from Cons.prems True e r have tr: "tr = (GetUploadAuth n f, st) # (UploadBlob n url f, st) # (AddTransferred n f, st1) # tr1"
      and st': "st' = st2" and "out = out1"
      by (auto simp: fileLoop_settled st1_def Let_def)
    from Cons.prems(2) tr st' consider "s = st" | "s = st1" | "s \<in> insert st2 (snd ` set tr1)"
      by auto
    then show ?thesis
    proof cases
      case 1
      with Cons.prems(3) show ?thesis by (auto intro: exI [of _ 0])
    next
      case 2
      then show ?thesis using e q1
        by (auto simp: st1_def entryPlus_Some intro!: exI [of _ "size_file f"])
    next
      case 3
      from Cons.IH [OF r 3 q1] obtain x where x: "x \<le> totalSize fs"
        "transfers s n = entryPlus x (transfers st1 n)"
        and fr: "files s = files st1" "cleanPrivateData s = cleanPrivateData st1"
          "\<forall>m. m \<noteq> n \<longrightarrow> transfers s m = transfers st1 m" "queued s = None"
        by auto
      have "transfers s n = entryPlus (size_file f + x) (transfers st n)"
        using x(2) e by (simp add: st1_def entryPlus_Some add.assoc)
      with x(1) fr show ?thesis
        by (auto simp: st1_def intro!: exI [of _ "size_file f + x"])
    qed
  qed
qed

lemma fileLoop_steps:
  "fileLoop env n url k fs st = (tr, st', out) \<Longrightarrow> queued st = None \<Longrightarrow>
     steps st tr \<and> st' = lastState st tr"
proof (induction fs arbitrary: k st tr st' out)
  case Nil
  then show ?case by simp
next
  case (Cons f fs)
  show ?case
  proof (cases "getUploadAuth env n k \<and> uploadBlob env n k \<and> transfers st n \<noteq> None")
    case False
    with Cons.prems show ?thesis
      by (auto simp: fileLoop_settled split: if_splits option.splits)
  next
    case True
    then obtain e where e: "transfers st n = Some e" by auto
    define st1 where "st1 = st\<lparr>transfers := (transfers st)(n \<mapsto> e\<lparr>transferred := transferred e + size_file f\<rparr>)\<rparr>"
    obtain tr1 st2 out1 where r: "fileLoop env n url (Suc k) fs st1 = (tr1, st2, out1)"
      by (cases "fileLoop env n url (Suc k) fs st1") auto
    have q1: "queued st1 = None" using Cons.prems by (simp add: st1_def)
    from Cons.prems True e r have tr: "tr = (GetUploadAuth n f, st) # (UploadBlob n url f, st) # (AddTransferred n f, st1) # tr1"
      and st': "st' = st2" and "out = out1"
      by (auto simp: fileLoop_settled st1_def Let_def)
    from Cons.IH [OF r q1] tr st' e show ?thesis
      by (simp add: st1_def entryPlus_Some)
  qed
qed

lemma fileLoop_events:
  "fileLoop env n url k fs st = (tr, st', out) \<Longrightarrow> (ev, s) \<in> set tr \<Longrightarrow> queued st = None \<Longrightarrow>
     \<exists>f\<in>set fs. ev = GetUploadAuth n f \<or> ev = UploadBlob n url f \<or> ev = AddTransferred n f"
proof (induction fs arbitrary: k st tr st' out)
  case Nil
  then show ?case by simp
next
  case (Cons f fs)
  show ?case
  proof (cases "getUploadAuth env n k \<and> uploadBlob env n k \<and> transfers st n \<noteq> None")
    case False
    with Cons.prems show ?thesis
      by (auto simp: fileLoop_settled split: if_splits option.splits)
  next
    case True
    then obtain e where e: "transfers st n = Some e" by auto
    define st1 where "st1 = st\<lparr>transfers := (transfers st)(n \<mapsto> e\<lparr>transferred := transferred e + size_file f\<rparr>)\<rparr>"
    obtain tr1 st2 out1 where r: "fileLoop env n url (Suc k) fs st1 = (tr1, st2, out1)"
      by (cases "fileLoop env n url (Suc k) fs st1") auto
    have q1: "queued st1 = None" using Cons.prems by (simp add: st1_def)
    from Cons.prems True e r have tr: "tr = (GetUploadAuth n f, st) # (UploadBlob n url f, st) # (AddTransferred n f, st1) # tr1"
      by (auto simp: fileLoop_settled st1_def Let_def)
    from Cons.prems(2) tr consider "ev = GetUploadAuth n f" | "ev = UploadBlob n url f"
      | "ev = AddTransferred n f" | "(ev, s) \<in> set tr1" by auto
    then show ?thesis using Cons.IH [OF r _ q1] by cases auto
  qed
qed

lemma fileLoop_nonempty:
  "fileLoop env n url k (f # fs) st = (tr, st', out) \<Longrightarrow> tr \<noteq> []"
  by (auto simp: fileLoop.simps(2) Let_def split: prod.splits if_splits option.splits)

text \<open>The outcome of a pass over the files and the counter at its end.\<close>

lemma fileLoop_Fulfilled:
  "fileLoop env n url k fs st = (tr, st', Fulfilled) \<Longrightarrow> queued st = None \<Longrightarrow>
     transfers st' n = entryPlus (totalSize fs) (transfers st n)
     \<and> (\<forall>j<length fs. getUploadAuth env n (k + j) \<and> uploadBlob env n (k + j))"
proof (induction fs arbitrary: k st tr st')
  case Nil
  then show ?case by simp
next
  case (Cons f fs)
  from Cons.prems have ok: "getUploadAuth env n k" "uploadBlob env n k"
    by (auto simp: fileLoop_settled split: if_splits)
  with Cons.prems obtain e where e: "transfers st n = Some e"
    by (cases "transfers st n") (auto simp: fileLoop_settled)
  define st1 where "st1 = st\<lparr>transfers := (transfers st)(n \<mapsto> e\<lparr>transferred := transferred e + size_file f\<rparr>)\<rparr>"
  obtain tr1 st2 out1 where r: "fileLoop env n url (Suc k) fs st1 = (tr1, st2, out1)"
    by (cases "fileLoop env n url (Suc k) fs st1") auto
  have q1: "queued st1 = None" using Cons.prems by (simp add: st1_def)
  from Cons.prems ok e r have "st' = st2" "out1 = Fulfilled"
    by (auto simp: fileLoop_settled st1_def Let_def)
  with Cons.IH [of "Suc k" st1 tr1 st2] r q1
  have ih: "transfers st' n = entryPlus (totalSize fs) (transfers st1 n)"
    "\<forall>j<length fs. getUploadAuth env n (Suc k + j) \<and> uploadBlob env n (Suc k + j)"
    by auto
  have "transfers st' n = entryPlus (totalSize (f # fs)) (transfers st n)"
    using ih(1) e by (simp add: st1_def entryPlus_Some add.assoc)
  moreover have "getUploadAuth env n (k + j) \<and> uploadBlob env n (k + j)" if "j < length (f # fs)" for j
    using that ok ih(2) by (cases j) auto
  ultimately show ?case by blast
qed

lemma fileLoop_Rejected:
  "fileLoop env n url k fs st = (tr, st', Rejected err) \<Longrightarrow> queued st = None \<Longrightarrow>
     (\<exists>j<length fs.
        transfers st' n = entryPlus (totalSize (take j fs)) (transfers st n)
        \<and> (\<forall>i<j. getUploadAuth env n (k + i) \<and> uploadBlob env n (k + i))
        \<and> (err = AuthRejected n (k + j) \<and> \<not> getUploadAuth env n (k + j)
               \<and> (\<exists>tr0. tr = tr0 @ [(GetUploadAuth n (fs ! j), st')])
           \<or> err = UploadRejected n (k + j) \<and> getUploadAuth env n (k + j) \<and> \<not> uploadBlob env n (k + j)
               \<and> (\<exists>tr0. tr = tr0 @ [(GetUploadAuth n (fs ! j), st'), (UploadBlob n url (fs ! j), st')])
           \<or> err = TypeError n \<and> transfers st n = None))"
proof (induction fs arbitrary: k st tr st')
  case Nil
  then show ?case by simp
next
  case (Cons f fs)
  show ?case
  proof (cases "getUploadAuth env n k \<and> uploadBlob env n k \<and> transfers st n \<noteq> None")
    case False
    with Cons.prems show ?thesis
      by (intro exI [of _ 0]) (auto simp: fileLoop_settled split: if_splits option.splits)
  next
    case True
    then obtain e where e: "transfers st n = Some e" by auto
    define st1 where "st1 = st\<lparr>transfers := (transfers st)(n \<mapsto> e\<lparr>transferred := transferred e + size_file f\<rparr>)\<rparr>"
    obtain tr1 st2 out1 where r: "fileLoop env n url (Suc k) fs st1 = (tr1, st2, out1)"
      by (cases "fileLoop env n url (Suc k) fs st1") auto
    have q1: "queued st1 = None" using Cons.prems by (simp add: st1_def)
    from Cons.prems True e r have tr: "tr = (GetUploadAuth n f, st) # (UploadBlob n url f, st) # (AddTransferred n f, st1) # tr1"
      and st': "st' = st2" and out: "out1 = Rejected err"
      by (auto simp: fileLoop_settled st1_def Let_def)
    from Cons.IH [of "Suc k" st1 tr1 st2] r out q1 obtain j where j: "j < length fs"
      "transfers st2 n = entryPlus (totalSize (take j fs)) (transfers st1 n)"
      "\<forall>i<j. getUploadAuth env n (Suc k + i) \<and> uploadBlob env n (Suc k + i)"
      "err = AuthRejected n (Suc k + j) \<and> \<not> getUploadAuth env n (Suc k + j)
               \<and> (\<exists>tr0. tr1 = tr0 @ [(GetUploadAuth n (fs ! j), st2)])
           \<or> err = UploadRejected n (Suc k + j) \<and> getUploadAuth env n (Suc k + j) \<and> \<not> uploadBlob env n (Suc k + j)
               \<and> (\<exists>tr0. tr1 = tr0 @ [(GetUploadAuth n (fs ! j), st2), (UploadBlob n url (fs ! j), st2)])
           \<or> err = TypeError n \<and> transfers st1 n = None"
      by blast
    have a: "transfers st' n = entryPlus (totalSize (take (Suc j) (f # fs))) (transfers st n)"
      using j(2) e st' by (simp add: st1_def entryPlus_Some add.assoc)
    have b: "\<forall>i<Suc j. getUploadAuth env n (k + i) \<and> uploadBlob env n (k + i)"
    proof (intro allI impI)
      fix i assume "i < Suc j"
      then show "getUploadAuth env n (k + i) \<and> uploadBlob env n (k + i)"
        using True j(3) by (cases i) auto
    qed
    have c: "err = AuthRejected n (k + Suc j) \<and> \<not> getUploadAuth env n (k + Suc j)
               \<and> (\<exists>tr0. tr = tr0 @ [(GetUploadAuth n ((f # fs) ! Suc j), st')])
           \<or> err = UploadRejected n (k + Suc j) \<and> getUploadAuth env n (k + Suc j) \<and> \<not> uploadBlob env n (k + Suc j)
               \<and> (\<exists>tr0. tr = tr0 @ [(GetUploadAuth n ((f # fs) ! Suc j), st'), (UploadBlob n url ((f # fs) ! Suc j), st')])"
      using j(4) tr st' by (auto simp: st1_def)
    have d: "Suc j < length (f # fs)" using j(1) by simp
    show ?thesis
      using a b c d by blast
  qed
qed

lemma fileLoop_no_signal:
  assumes "fileLoop env n url k fs st = (tr, st', out)" and q: "queued st = None"
  shows "count_list (map fst tr) (InvalidateQueries m) = 0 \<and> count_list (map fst tr) SetFiles = 0"
proof -
  have "ev \<noteq> InvalidateQueries m \<and> ev \<noteq> SetFiles" if "ev \<in> set (map fst tr)" for ev
  proof -
    from that obtain x where "(ev, x) \<in> set tr" by auto
    from fileLoop_events [OF assms(1) this q] show ?thesis by auto
  qed
  then show ?thesis by (auto simp: count_list_0_iff)
qed



section \<open>One pass\<close>

lemma serverPass_disabled:
  "\<not> isEnabled (transfers st) (name s) \<Longrightarrow> serverPass env fs s st = ([], st, Fulfilled)"
  by (simp add: serverPass_def)

lemma serverPass_cases:
  assumes "serverPass env fs s st = (tr, st', out)"
  obtains (disabled) "\<not> isEnabled (transfers st) (name s)" "tr = []" "st' = st" "out = Fulfilled"
  | (noInfo) "isEnabled (transfers st) (name s)" "serverInfo env (name s) = None"
      "tr = []" "st' = st" "out = Rejected (TypeError (name s))"
  | (rejected) url err where "isEnabled (transfers st) (name s)" "serverInfo env (name s) = Some url"
      "fileLoop env (name s) url 0 fs st = (tr, st', Rejected err)" "out = Rejected err"
  | (completed) url tr1 st1 where "isEnabled (transfers st) (name s)" "serverInfo env (name s) = Some url"
      "fileLoop env (name s) url 0 fs st = (tr1, st1, Fulfilled)"
      "tr = tr1 @ [(InvalidateQueries (name s), st1), (SetFiles, st1\<lparr>files := []\<rparr>)]"
      "st' = st1\<lparr>files := []\<rparr>" "out = Fulfilled"
proof (cases "isEnabled (transfers st) (name s)")
  case False
  with assms show ?thesis by (auto simp: serverPass_def intro: disabled)
next
  case en: True
  show ?thesis
  proof (cases "serverInfo env (name s)")
    case None
    with assms en show ?thesis by (auto simp: serverPass_def intro: noInfo)
  next
    case (Some url)
    obtain tr1 st1 out1 where r: "fileLoop env (name s) url 0 fs st = (tr1, st1, out1)"
      by (cases "fileLoop env (name s) url 0 fs st") auto
    show ?thesis
    proof (cases out1)
      case Fulfilled
      with assms en Some r show ?thesis
        by (intro completed [of url tr1 st1]) (auto simp: serverPass_def)
    next
      case (Rejected err)
      with assms en Some r show ?thesis
        by (intro rejected [of url err]) (auto simp: serverPass_def)
    qed
  qed
qed

lemma serverPass_steps:
  assumes "serverPass env fs s st = (tr, st', out)" and q: "queued st = None"
  shows "steps st tr \<and> st' = lastState st tr"
  using assms(1)
proof (cases rule: serverPass_cases)
  case (rejected url err)
  then show ?thesis using fileLoop_steps [OF rejected(3) q] by blast
next
  case (completed url tr1 st1)
  then show ?thesis using fileLoop_steps [OF completed(3) q]
    by (simp add: steps_append lastState_append)
qed simp_all

lemma serverPass_states:
  assumes "serverPass env fs s st = (tr, st', out)" and "x \<in> insert st' (snd ` set tr)"
    and q: "queued st = None"
  shows "(files x = files st \<or> files x = []) \<and> cleanPrivateData x = cleanPrivateData st
     \<and> queued x = None
     \<and> (\<forall>m. m \<noteq> name s \<longrightarrow> transfers x m = transfers st m)
     \<and> (\<exists>a\<le>totalSize fs. transfers x (name s) = entryPlus a (transfers st (name s)))"
  using assms(1)
proof (cases rule: serverPass_cases)
  case disabled
  with assms(2) q show ?thesis by (auto intro: exI [of _ 0])
next
  case noInfo
  with assms(2) q show ?thesis by (auto intro: exI [of _ 0])
next
  case (rejected url err)
  from fileLoop_states [OF rejected(3) assms(2) q] show ?thesis by blast
next
  case (completed url tr1 st1)
  from assms(2) completed(4,5) consider "x \<in> insert st1 (snd ` set tr1)" | "x = st1\<lparr>files := []\<rparr>"
    by auto
  then show ?thesis
  proof cases
    case 1
    from fileLoop_states [OF completed(3) 1 q] show ?thesis by blast
  next
    case 2
    have "st1 \<in> insert st1 (snd ` set tr1)" by simp
    from fileLoop_states [OF completed(3) this q] 2 show ?thesis by simp
  qed
qed

lemma serverPass_queued:
  assumes "serverPass env fs s st = (tr, st', out)" and "queued st = None"
  shows "queued st' = None"
proof -
  have "st' \<in> insert st' (snd ` set tr)" by simp
  from serverPass_states [OF assms(1) this assms(2)] show ?thesis by blast
qed

lemma serverPass_isEnabled:
  assumes "serverPass env fs s st = (tr, st', out)" and "x \<in> insert st' (snd ` set tr)"
    and "queued st = None"
  shows "isEnabled (transfers x) m = isEnabled (transfers st) m"
proof (cases "m = name s")
  case True
  from serverPass_states [OF assms] obtain a where
    "transfers x (name s) = entryPlus a (transfers st (name s))" by blast
  then show ?thesis unfolding True by (rule isEnabled_entryPlus_eq)
next
  case False
  with serverPass_states [OF assms] show ?thesis by (simp add: isEnabled_def)
qed

lemma serverPass_events:
  assumes "serverPass env fs s st = (tr, st', out)" and "(ev, x) \<in> set tr"
    and q: "queued st = None"
  shows "isEnabled (transfers st) (name s) \<and> (ev = SetFiles \<or> destOf ev = Some (name s))"
  using assms(1)
proof (cases rule: serverPass_cases)
  case (rejected url err)
  with assms(2) fileLoop_events [OF rejected(3) _ q] show ?thesis by fastforce
next
  case (completed url tr1 st1)
  with assms(2) fileLoop_events [OF completed(3) _ q] show ?thesis by fastforce
qed (use assms(2) in simp_all)

lemma serverPass_Rejected:
  assumes "serverPass env fs s st = (tr, st', Rejected err)" and q: "queued st = None"
  shows "errServer err = Some (name s) \<and> isEnabled (transfers st) (name s)
         \<and> (\<forall>ev x. (ev, x) \<in> set tr \<longrightarrow> (\<exists>f. ev = GetUploadAuth (name s) f) \<or> (\<exists>u f. ev = UploadBlob (name s) u f) \<or> (\<exists>f. ev = AddTransferred (name s) f))"
  using assms(1)
proof (cases rule: serverPass_cases)
  case noInfo
  then show ?thesis by simp
next
  case (rejected url err')
  from fileLoop_Rejected [OF rejected(3) q] rejected(4) have "errServer err = Some (name s)"
    by auto
  moreover have "(\<exists>f. ev = GetUploadAuth (name s) f) \<or> (\<exists>u f. ev = UploadBlob (name s) u f) \<or> (\<exists>f. ev = AddTransferred (name s) f)"
    if "(ev, x) \<in> set tr" for ev x
    using fileLoop_events [OF rejected(3) that q] by blast
  ultimately show ?thesis using rejected(1) by blast
qed simp_all

lemma serverPass_Fulfilled:
  assumes "serverPass env fs s st = (tr, st', Fulfilled)" and q: "queued st = None"
  shows "count_list (map fst tr) (InvalidateQueries m)
           = (if m = name s \<and> isEnabled (transfers st) m then 1 else 0)
       \<and> count_list (map fst tr) SetFiles = (if isEnabled (transfers st) (name s) then 1 else 0)
       \<and> files st' = (if isEnabled (transfers st) (name s) then [] else files st)"
  using assms(1)
proof (cases rule: serverPass_cases)
  case disabled
  then show ?thesis by simp
next
  case (completed url tr1 st1)
  with fileLoop_no_signal [OF completed(3) q] show ?thesis by auto
qed simp_all

lemma serverPass_Rejected_no_signal:
  assumes "serverPass env fs s st = (tr, st', Rejected err)" and q: "queued st = None"
  shows "count_list (map fst tr) (InvalidateQueries m) = 0 \<and> count_list (map fst tr) SetFiles = 0
         \<and> files st' = files st"
  using assms(1)
proof (cases rule: serverPass_cases)
  case noInfo
  then show ?thesis by simp
next
  case (rejected url err')
  have "st' \<in> insert st' (snd ` set tr)" by simp
  from fileLoop_no_signal [OF rejected(3) q] fileLoop_states [OF rejected(3) this q]
  show ?thesis by simp
qed simp_all


section \<open>The loop over the servers\<close>

lemma serverLoop_Nil_iff [simp]:
  "serverLoop env fs [] st = (tr, st', out) \<longleftrightarrow> tr = [] \<and> st' = st \<and> out = Fulfilled"
  by auto

lemma serverLoop_Cons_cases:
  assumes "serverLoop env fs (s # ss) st = (tr, st', out)"
  obtains (stop) err where "serverPass env fs s st = (tr, st', Rejected err)" "out = Rejected err"
  | (continue) tr1 st1 tr2 where "serverPass env fs s st = (tr1, st1, Fulfilled)"
      "serverLoop env fs ss st1 = (tr2, st', out)" "tr = tr1 @ tr2"
proof -
  obtain tr1 st1 out1 where p: "serverPass env fs s st = (tr1, st1, out1)"
    by (cases "serverPass env fs s st") auto
  show ?thesis
  proof (cases out1)
    case (Rejected err)
    with assms p show ?thesis by (intro stop [of err]) auto
  next
    case Fulfilled
    obtain tr2 st2 out2 where r: "serverLoop env fs ss st1 = (tr2, st2, out2)"
      by (cases "serverLoop env fs ss st1") auto
    with assms p Fulfilled show ?thesis by (intro continue [of tr1 st1 tr2]) auto
  qed
qed

lemma serverLoop_steps:
  "serverLoop env fs ss st = (tr, st', out) \<Longrightarrow> queued st = None \<Longrightarrow>
     steps st tr \<and> st' = lastState st tr"
proof (induction ss arbitrary: st tr st' out)
  case Nil
  then show ?case by simp
next
  case (Cons s ss)
  note q = Cons.prems(2)
  from Cons.prems(1) show ?case
  proof (cases rule: serverLoop_Cons_cases)
    case (stop err)
    then show ?thesis using serverPass_steps [OF stop(1) q] by blast
  next
    case (continue tr1 st1 tr2)
    note q1 = serverPass_queued [OF continue(1) q]
    from serverPass_steps [OF continue(1) q] Cons.IH [OF continue(2) q1] continue(3)
    show ?thesis by (simp add: steps_append lastState_append)
  qed
qed

lemma serverLoop_states:
  assumes "serverLoop env fs ss st = (tr, st', out)" and "x \<in> insert st' (snd ` set tr)"
    and "queued st = None"
  shows "(files x = files st \<or> files x = []) \<and> cleanPrivateData x = cleanPrivateData st
     \<and> queued x = None
     \<and> (\<forall>m. m \<notin> name ` set ss \<longrightarrow> transfers x m = transfers st m)
     \<and> (\<forall>m. isEnabled (transfers x) m = isEnabled (transfers st) m)"
  using assms
proof (induction ss arbitrary: st tr st' out)
  case Nil
  then show ?case by simp
next
  case (Cons s ss)
  note q = Cons.prems(3)
  from Cons.prems(1) show ?case
  proof (cases rule: serverLoop_Cons_cases)
    case (stop err)
    from serverPass_states [OF stop(1) Cons.prems(2) q] serverPass_isEnabled [OF stop(1) Cons.prems(2) q]
    show ?thesis by auto
  next
    case (continue tr1 st1 tr2)
    note q1 = serverPass_queued [OF continue(1) q]
    have st1: "st1 \<in> insert st1 (snd ` set tr1)" by simp
    note p1 = serverPass_states [OF continue(1) st1 q] serverPass_isEnabled [OF continue(1) st1 q]
    from Cons.prems(2) continue(3) consider "x \<in> snd ` set tr1" | "x \<in> insert st' (snd ` set tr2)"
      by auto
    then show ?thesis
    proof cases
      case 1
      then have "x \<in> insert st1 (snd ` set tr1)" by simp
      from serverPass_states [OF continue(1) this q] serverPass_isEnabled [OF continue(1) this q]
      show ?thesis by auto
    next
      case 2
      from Cons.IH [OF continue(2) 2 q1] p1 show ?thesis by auto
    qed
  qed
qed

lemma serverLoop_queued_None:
  assumes "serverLoop env fs ss st = (tr, st', out)" and "queued st = None"
  shows "queued st' = None"
proof -
  have "st' \<in> insert st' (snd ` set tr)" by simp
  from serverLoop_states [OF assms(1) this assms(2)] show ?thesis by blast
qed

lemma serverLoop_bound:
  assumes "serverLoop env fs ss st = (tr, st', out)" and "x \<in> insert st' (snd ` set tr)"
    and "distinct (map name ss)" and "queued st = None"
  shows "\<exists>a\<le>totalSize fs. transfers x m = entryPlus a (transfers st m)"
  using assms
proof (induction ss arbitrary: st tr st' out)
  case Nil
  then show ?case by (auto intro: exI [of _ 0])
next
  case (Cons s ss)
  note q = Cons.prems(4)
  have pass: "\<exists>a\<le>totalSize fs. transfers y m = entryPlus a (transfers st m)"
    if "serverPass env fs s st = (tr1, st1, out1)" "y \<in> insert st1 (snd ` set tr1)" for tr1 st1 out1 y
  proof (cases "m = name s")
    case True
    with serverPass_states [OF that q] show ?thesis by blast
  next
    case False
    with serverPass_states [OF that q] show ?thesis by (auto intro: exI [of _ 0])
  qed
  from Cons.prems(1) show ?case
  proof (cases rule: serverLoop_Cons_cases)
    case (stop err)
    from pass [OF stop(1) Cons.prems(2)] show ?thesis .
  next
    case (continue tr1 st1 tr2)
    from Cons.prems(2) continue(3) consider "x \<in> snd ` set tr1" | "x \<in> insert st' (snd ` set tr2)"
      by auto
    then show ?thesis
    proof cases
      case 1
      then have "x \<in> insert st1 (snd ` set tr1)" by simp
      from pass [OF continue(1) this] show ?thesis .
    next
      case 2
      note q1 = serverPass_queued [OF continue(1) q]
      have st1: "st1 \<in> insert st1 (snd ` set tr1)" by simp
      show ?thesis
      proof (cases "m = name s")
        case True
        with Cons.prems(3) have "m \<notin> name ` set ss" by auto
        with serverLoop_states [OF continue(2) 2 q1] have "transfers x m = transfers st1 m" by blast
        with pass [OF continue(1) st1] show ?thesis by simp
      next
        case False
        with serverPass_states [OF continue(1) st1 q] have "transfers st1 m = transfers st m" by blast
        with Cons.IH [OF continue(2) 2 _ q1] Cons.prems(3) show ?thesis by simp
      qed
    qed
  qed
qed

lemma serverLoop_disabled:
  assumes "serverLoop env fs ss st = (tr, st', out)" and "x \<in> insert st' (snd ` set tr)"
    and "\<not> isEnabled (transfers st) m" and "queued st = None"
  shows "transfers x m = transfers st m"
  using assms
proof (induction ss arbitrary: st tr st' out)
  case Nil
  then show ?case by simp
next
  case (Cons s ss)
  note q = Cons.prems(4)
  have pass: "transfers y m = transfers st m"
    if "serverPass env fs s st = (tr1, st1, out1)" "y \<in> insert st1 (snd ` set tr1)" for tr1 st1 out1 y
  proof (cases "m = name s")
    case True
    with Cons.prems(3) that show ?thesis by (simp add: serverPass_disabled)
  next
    case False
    with serverPass_states [OF that q] show ?thesis by blast
  qed
  from Cons.prems(1) show ?case
  proof (cases rule: serverLoop_Cons_cases)
    case (stop err)
    from pass [OF stop(1) Cons.prems(2)] show ?thesis .
  next
    case (continue tr1 st1 tr2)
    have st1: "st1 \<in> insert st1 (snd ` set tr1)" by simp
    from Cons.prems(2) continue(3) consider "x \<in> snd ` set tr1" | "x \<in> insert st' (snd ` set tr2)"
      by auto
    then show ?thesis
    proof cases
      case 1
      then have "x \<in> insert st1 (snd ` set tr1)" by simp
      from pass [OF continue(1) this] show ?thesis .
    next
      case 2
      from pass [OF continue(1) st1] Cons.prems(3) have "\<not> isEnabled (transfers st1) m"
        by (simp add: isEnabled_def)
      from Cons.IH [OF continue(2) 2 this serverPass_queued [OF continue(1) q]] pass [OF continue(1) st1]
      show ?thesis by simp
    qed
  qed
qed

lemma serverLoop_events:
  assumes "serverLoop env fs ss st = (tr, st', out)" and "(ev, x) \<in> set tr"
    and "queued st = None"
  shows "ev = SetFiles \<or> (\<exists>s\<in>set ss. destOf ev = Some (name s) \<and> isEnabled (transfers st) (name s))"
  using assms
proof (induction ss arbitrary: st tr st' out)
  case Nil
  then show ?case by simp
next
  case (Cons s ss)
  note q = Cons.prems(3)
  from Cons.prems(1) show ?case
  proof (cases rule: serverLoop_Cons_cases)
    case (stop err)
    from serverPass_events [OF stop(1) Cons.prems(2) q] show ?thesis by auto
  next
    case (continue tr1 st1 tr2)
    from Cons.prems(2) continue(3) consider "(ev, x) \<in> set tr1" | "(ev, x) \<in> set tr2" by auto
    then show ?thesis
    proof cases
      case 1
      from serverPass_events [OF continue(1) 1 q] show ?thesis by auto
    next
      case 2
      note q1 = serverPass_queued [OF continue(1) q]
      have "st1 \<in> insert st1 (snd ` set tr1)" by simp
      from serverPass_isEnabled [OF continue(1) this q] Cons.IH [OF continue(2) 2 q1]
      show ?thesis by auto
    qed
  qed
qed

lemma serverLoop_Rejected:
  "serverLoop env fs ss st = (tr, st', Rejected err) \<Longrightarrow> queued st = None \<Longrightarrow>
     \<exists>s\<in>set ss. errServer err = Some (name s)"
proof (induction ss arbitrary: st tr)
  case Nil
  then show ?case by simp
next
  case (Cons s ss)
  note q = Cons.prems(2)
  from Cons.prems(1) show ?case
  proof (cases rule: serverLoop_Cons_cases)
    case (stop err')
    with serverPass_Rejected [of env fs s st tr st' err] q show ?thesis by auto
  next
    case (continue tr1 st1 tr2)
    note q1 = serverPass_queued [OF continue(1) q]
    from Cons.IH [OF continue(2) q1] show ?thesis by auto
  qed
qed

lemma serverLoop_append:
  "serverLoop env fs (a @ b) st =
     (case serverLoop env fs a st of
        (tr, st1, Rejected e) \<Rightarrow> (tr, st1, Rejected e)
      | (tr, st1, Fulfilled) \<Rightarrow>
          (case serverLoop env fs b st1 of (tr', st2, out) \<Rightarrow> (tr @ tr', st2, out)))"
proof (induction a arbitrary: st)
  case Nil
  show ?case by (simp split: prod.splits)
next
  case (Cons s a)
  obtain tr1 st1 out1 where p: "serverPass env fs s st = (tr1, st1, out1)"
    by (cases "serverPass env fs s st") auto
  show ?case
  proof (cases out1)
    case (Rejected e)
    with p show ?thesis by simp
  next
    case Fulfilled
    with p Cons.IH [of st1] show ?thesis
      by (simp split: prod.splits outcome.splits)
  qed
qed

text \<open>A rejection in the pass of a server: the loop ran the servers before it to the end.\<close>

lemma serverLoop_rejected_at:
  assumes "serverLoop env fs (pre @ d # post) st = (tr, st', Rejected err)"
    and "errServer err = Some (name d)" and "distinct (map name (pre @ d # post))"
    and q: "queued st = None"
  shows "\<exists>tr1 st1 tr2. serverLoop env fs pre st = (tr1, st1, Fulfilled)
           \<and> serverPass env fs d st1 = (tr2, st', Rejected err) \<and> tr = tr1 @ tr2"
proof -
  obtain tr1 st1 out1 where a: "serverLoop env fs pre st = (tr1, st1, out1)"
    by (cases "serverLoop env fs pre st") auto
  have out1: "out1 = Fulfilled"
  proof (cases out1)
    case (Rejected e)
    with a assms(1) have "e = err" by (simp add: serverLoop_append)
    with serverLoop_Rejected [OF _ q] a Rejected have "\<exists>s\<in>set pre. errServer err = Some (name s)" by blast
    with assms(2,3) show ?thesis by auto
  qed simp
  obtain tr2 st2 out2 where p: "serverPass env fs d st1 = (tr2, st2, out2)"
    by (cases "serverPass env fs d st1") auto
  show ?thesis
  proof (cases out2)
    case (Rejected e)
    with a out1 p assms(1) show ?thesis by (simp add: serverLoop_append)
  next
    case Fulfilled
    obtain tr3 st3 out3 where r: "serverLoop env fs post st2 = (tr3, st3, out3)"
      by (cases "serverLoop env fs post st2") auto
    with a out1 p Fulfilled assms(1) have "out3 = Rejected err"
      by (simp add: serverLoop_append)
    from serverLoop_queued_None [OF a q] have q1: "queued st1 = None" .
    from serverPass_queued [OF p q1] have q2: "queued st2 = None" .
    from serverLoop_Rejected [OF _ q2] r \<open>out3 = Rejected err\<close>
    have "\<exists>s\<in>set post. errServer err = Some (name s)" by blast
    with assms(2,3) show ?thesis by auto
  qed
qed


lemma serverLoop_Fulfilled_count:
  "serverLoop env fs ss st = (tr, st', Fulfilled) \<Longrightarrow> distinct (map name ss) \<Longrightarrow>
     queued st = None \<Longrightarrow>
     count_list (map fst tr) (InvalidateQueries m)
       = (if m \<in> name ` set ss \<and> isEnabled (transfers st) m then 1 else 0)"
proof (induction ss arbitrary: st tr)
  case Nil
  then show ?case by simp
next
  case (Cons s ss)
  note q = Cons.prems(3)
  from Cons.prems(1) show ?case
  proof (cases rule: serverLoop_Cons_cases)
    case (continue tr1 st1 tr2)
    note q1 = serverPass_queued [OF continue(1) q]
    have "st1 \<in> insert st1 (snd ` set tr1)" by simp
    from serverPass_isEnabled [OF continue(1) this q]
    have en: "isEnabled (transfers st1) m = isEnabled (transfers st) m" .
    from Cons.IH [OF continue(2) _ q1] Cons.prems(2) en
    have ih: "count_list (map fst tr2) (InvalidateQueries m)
       = (if m \<in> name ` set ss \<and> isEnabled (transfers st) m then 1 else 0)" by simp
    from serverPass_Fulfilled [OF continue(1) q, of m] ih continue(3) Cons.prems(2)
    show ?thesis by auto
  qed simp
qed


text \<open>A loop that makes no call: no server is enabled, or the first enabled one is unknown.\<close>

lemma serverLoop_idle:
  assumes "serverLoop env fs ss st = ([], st', out)" and "fs \<noteq> []"
  shows "st' = st \<and> ((\<forall>s\<in>set ss. \<not> isEnabled (transfers st) (name s)) \<and> out = Fulfilled
                    \<or> (\<exists>s\<in>set ss. isEnabled (transfers st) (name s) \<and> serverInfo env (name s) = None
                          \<and> out = Rejected (TypeError (name s))))"
  using assms(1)
proof (induction ss)
  case Nil
  then show ?case by simp
next
  case (Cons s ss)
  from assms(2) obtain f fs' where f: "fs = f # fs'" by (cases fs) auto
  from Cons.prems show ?case
  proof (cases rule: serverLoop_Cons_cases)
    case (stop err)
    from stop(1) show ?thesis
    proof (cases rule: serverPass_cases)
      case noInfo
      with stop(2) show ?thesis by simp
    next
      case (rejected url err')
      with fileLoop_nonempty [of env "name s" url 0 f fs' st "[]" st'] f show ?thesis by simp
    qed simp_all
  next
    case (continue tr1 st1 tr2)
    then have e: "tr1 = []" "tr2 = []" by simp_all
    from continue(1) [unfolded e] have d: "\<not> isEnabled (transfers st) (name s)" "st1 = st"
      by (cases rule: serverPass_cases; simp)+
    from Cons.IH continue(2) [unfolded e] d show ?thesis by auto
  qed
qed

section \<open>Sizing\<close>

lemma setSizes_entry:
  "setSizes ss tot l = (t, l') \<Longrightarrow>
     l' n = l n \<or> (\<exists>e. l n = Some e \<and> enabled e \<and> n \<in> name ` set ss \<and> l' n = Some (e\<lparr>size_stats := tot\<rparr>))"
proof (induction ss arbitrary: l)
  case Nil
  then show ?case by simp
next
  case (Cons s ss)
  show ?case
  proof (cases "l (name s)")
    case None
    with Cons.prems show ?thesis by simp
  next
    case (Some e)
    show ?thesis
    proof (cases "enabled e")
      case False
      with Some Cons.prems Cons.IH [of l] show ?thesis by auto
    next
      case True
      with Some Cons.prems have "setSizes ss tot (l(name s \<mapsto> e\<lparr>size_stats := tot\<rparr>)) = (t, l')"
        by simp
      from Cons.IH [OF this] Some True show ?thesis
        by (cases "n = name s") auto
    qed
  qed
qed

lemma setSizes_covered:
  "\<forall>s\<in>set ss. l (name s) \<noteq> None \<Longrightarrow>
     fst (setSizes ss tot l) = None
     \<and> snd (setSizes ss tot l) n =
         (case l n of None \<Rightarrow> None
          | Some e \<Rightarrow> Some (if enabled e \<and> n \<in> name ` set ss then e\<lparr>size_stats := tot\<rparr> else e))"
proof (induction ss arbitrary: l)
  case Nil
  show ?case by (simp split: option.splits)
next
  case (Cons s ss)
  then obtain e where e: "l (name s) = Some e" by auto
  show ?case
  proof (cases "enabled e")
    case False
    with e Cons.prems Cons.IH [of l] show ?thesis
      by (auto split: option.splits)
  next
    case True
    define l1 where "l1 = l(name s \<mapsto> e\<lparr>size_stats := tot\<rparr>)"
    have "\<forall>s'\<in>set ss. l1 (name s') \<noteq> None"
      using Cons.prems by (simp add: l1_def)
    from Cons.IH [OF this]
    have ih: "fst (setSizes ss tot l1) = None"
      "snd (setSizes ss tot l1) n =
         (case l1 n of None \<Rightarrow> None
          | Some e \<Rightarrow> Some (if enabled e \<and> n \<in> name ` set ss then e\<lparr>size_stats := tot\<rparr> else e))"
      by simp_all
    have step: "setSizes (s # ss) tot l = setSizes ss tot l1"
      using e True by (simp add: l1_def)
    have "(case l1 n of None \<Rightarrow> None
          | Some e \<Rightarrow> Some (if enabled e \<and> n \<in> name ` set ss then e\<lparr>size_stats := tot\<rparr> else e))
        = (case l n of None \<Rightarrow> None
          | Some e \<Rightarrow> Some (if enabled e \<and> n \<in> name ` set (s # ss) then e\<lparr>size_stats := tot\<rparr> else e))"
      using e True by (cases "n = name s") (auto simp: l1_def split: option.splits)
    with ih step show ?thesis by simp
  qed
qed

lemma setSizes_isEnabled:
  "setSizes ss tot l = (t, l') \<Longrightarrow> isEnabled l' n = isEnabled l n"
  using setSizes_entry [of ss tot l t l' n] by (auto simp: isEnabled_def)

section \<open>The queued updater\<close>

text \<open>
  A loop started with an updater queued and the same loop started after the render: the
  first call is made in the state before the render, the render follows it, and from
  then on the two runs are the same.
\<close>

lemma fileLoop_pending:
  assumes q: "queued st = Some u" and u: "u (transfers st) = (t, l1)"
  shows "\<exists>tr2 st1 out.
           fileLoop env n url k (f # fs) (st\<lparr>transfers := l1, queued := None\<rparr>)
             = ((GetUploadAuth n f, st\<lparr>transfers := l1, queued := None\<rparr>) # tr2, st1, out)
           \<and> fileLoop env n url k (f # fs) st
             = ((GetUploadAuth n f, st) # (Render t, st\<lparr>transfers := l1, queued := None\<rparr>) # tr2, st1, out)"
  using q u
  by (simp add: fileLoop.simps(2) awaitRender_def Let_def split: option.splits prod.splits)

lemma serverPass_pending:
  assumes q: "queued st = Some u" and u: "u (transfers st) = (t, l1)"
    and en: "\<forall>m. isEnabled l1 m = isEnabled (transfers st) m" and fs: "fs \<noteq> []"
    and r: "serverPass env fs s (st\<lparr>transfers := l1, queued := None\<rparr>) = (tr1, st1, out)"
  shows "(tr1 = [] \<and> st1 = st\<lparr>transfers := l1, queued := None\<rparr> \<and> serverPass env fs s st = ([], st, out))
       \<or> (\<exists>f tr2. tr1 = (GetUploadAuth (name s) f, st\<lparr>transfers := l1, queued := None\<rparr>) # tr2
             \<and> serverPass env fs s st
                 = ((GetUploadAuth (name s) f, st) # (Render t, st\<lparr>transfers := l1, queued := None\<rparr>) # tr2, st1, out))"
proof -
  from fs obtain f fs' where f: "fs = f # fs'" by (cases fs) auto
  show ?thesis
  proof (cases "isEnabled (transfers st) (name s)")
    case False
    with r en show ?thesis by (auto simp: serverPass_def)
  next
    case True
    show ?thesis
    proof (cases "serverInfo env (name s)")
      case None
      with r en True show ?thesis by (auto simp: serverPass_def)
    next
      case (Some url)
      from fileLoop_pending [OF q u, of env "name s" url 0 f fs'] obtain tr2 st2 out2 where
        a: "fileLoop env (name s) url 0 fs (st\<lparr>transfers := l1, queued := None\<rparr>)
             = ((GetUploadAuth (name s) f, st\<lparr>transfers := l1, queued := None\<rparr>) # tr2, st2, out2)"
        and b: "fileLoop env (name s) url 0 fs st
             = ((GetUploadAuth (name s) f, st) # (Render t, st\<lparr>transfers := l1, queued := None\<rparr>) # tr2, st2, out2)"
        unfolding f by blast
      from r en True Some a b show ?thesis
        by (cases out2) (auto simp: serverPass_def)
    qed
  qed
qed

lemma serverLoop_pending:
  assumes q: "queued st = Some u" and u: "u (transfers st) = (t, l1)"
    and en: "\<forall>m. isEnabled l1 m = isEnabled (transfers st) m" and fs: "fs \<noteq> []"
    and r: "serverLoop env fs ss (st\<lparr>transfers := l1, queued := None\<rparr>) = (tr1, st1, out)"
  shows "(tr1 = [] \<and> st1 = st\<lparr>transfers := l1, queued := None\<rparr> \<and> serverLoop env fs ss st = ([], st, out))
       \<or> (\<exists>n f tr2. tr1 = (GetUploadAuth n f, st\<lparr>transfers := l1, queued := None\<rparr>) # tr2
             \<and> serverLoop env fs ss st
                 = ((GetUploadAuth n f, st) # (Render t, st\<lparr>transfers := l1, queued := None\<rparr>) # tr2, st1, out))"
  using r
proof (induction ss arbitrary: tr1)
  case Nil
  then show ?case by simp
next
  case (Cons s ss)
  from Cons.prems show ?case
  proof (cases rule: serverLoop_Cons_cases)
    case (stop err)
    from serverPass_pending [OF q u en fs stop(1)] stop(2) show ?thesis by auto
  next
    case (continue tra sta trb)
    from serverPass_pending [OF q u en fs continue(1)] show ?thesis
    proof (elim disjE conjE exE)
      assume a: "tra = []" "sta = st\<lparr>transfers := l1, queued := None\<rparr>"
        "serverPass env fs s st = ([], st, Fulfilled)"
      from continue(2) a(2) Cons.IH [of trb] a(1,3) continue(3) show ?thesis by auto
    next
      fix f tr2
      assume a: "tra = (GetUploadAuth (name s) f, st\<lparr>transfers := l1, queued := None\<rparr>) # tr2"
        "serverPass env fs s st
           = ((GetUploadAuth (name s) f, st) # (Render t, st\<lparr>transfers := l1, queued := None\<rparr>) # tr2, sta, Fulfilled)"
      with continue(2,3) show ?thesis by auto
    qed
  qed
qed

section \<open>The trace of an upload\<close>

lemma upload_nonempty:
  assumes "sanitizeFiles env (cleanPrivateData st) (files st) = Some fs" and "fs \<noteq> []"
    and "upload env servers st = (tr, st', out)"
  obtains (idle) t l1 where "setSizes servers (totalSize fs) (transfers st) = (t, l1)"
      and "serverLoop env fs servers (st\<lparr>transfers := l1, queued := None\<rparr>)
             = ([], st\<lparr>transfers := l1, queued := None\<rparr>, out)"
      and "tr = [(SetTransfers, st\<lparr>queued := Some (setSizes servers (totalSize fs))\<rparr>)]"
      and "st' = st\<lparr>queued := Some (setSizes servers (totalSize fs))\<rparr>"
      and "(\<forall>s\<in>set servers. \<not> isEnabled (transfers st) (name s)) \<and> out = Fulfilled
           \<or> (\<exists>s\<in>set servers. isEnabled (transfers st) (name s) \<and> serverInfo env (name s) = None
                 \<and> out = Rejected (TypeError (name s)))"
  | (call) t l1 n f tr2 where "setSizes servers (totalSize fs) (transfers st) = (t, l1)"
      and "serverLoop env fs servers (st\<lparr>transfers := l1, queued := None\<rparr>)
             = ((GetUploadAuth n f, st\<lparr>transfers := l1, queued := None\<rparr>) # tr2, st', out)"
      and "tr = (SetTransfers, st\<lparr>queued := Some (setSizes servers (totalSize fs))\<rparr>)
                # (GetUploadAuth n f, st\<lparr>queued := Some (setSizes servers (totalSize fs))\<rparr>)
                # (Render t, st\<lparr>transfers := l1, queued := None\<rparr>) # tr2"
proof -
  define stq where "stq = st\<lparr>queued := Some (setSizes servers (totalSize fs))\<rparr>"
  obtain t l1 where a: "setSizes servers (totalSize fs) (transfers st) = (t, l1)"
    by (cases "setSizes servers (totalSize fs) (transfers st)") auto
  have q: "queued stq = Some (setSizes servers (totalSize fs))" by (simp add: stq_def)
  have u: "setSizes servers (totalSize fs) (transfers stq) = (t, l1)" using a by (simp add: stq_def)
  have en: "\<forall>m. isEnabled l1 m = isEnabled (transfers stq) m"
    using setSizes_isEnabled [OF a] by (simp add: stq_def)
  have sts: "stq\<lparr>transfers := l1, queued := None\<rparr> = st\<lparr>transfers := l1, queued := None\<rparr>"
    by (simp add: stq_def)
  obtain tr1 st1 out1 where
    b: "serverLoop env fs servers (st\<lparr>transfers := l1, queued := None\<rparr>) = (tr1, st1, out1)"
    by (cases "serverLoop env fs servers (st\<lparr>transfers := l1, queued := None\<rparr>)") auto
  from assms have up: "(tr, st', out) = (case serverLoop env fs servers stq of
      (tr, st2, out) \<Rightarrow> ((SetTransfers, stq) # tr, st2, out))"
    by (simp add: upload_def Let_def stq_def)
  from serverLoop_pending [OF q u en assms(2), of env servers tr1 st1 out1] b
  consider "tr1 = []" "st1 = st\<lparr>transfers := l1, queued := None\<rparr>"
      "serverLoop env fs servers stq = ([], stq, out1)"
    | n f tr2 where "tr1 = (GetUploadAuth n f, st\<lparr>transfers := l1, queued := None\<rparr>) # tr2"
      "serverLoop env fs servers stq
         = ((GetUploadAuth n f, stq) # (Render t, st\<lparr>transfers := l1, queued := None\<rparr>) # tr2, st1, out1)"
    unfolding sts by blast
  then show ?thesis
  proof cases
    case 1
    from serverLoop_idle [OF b [unfolded 1(1)] assms(2)] en
    have "(\<forall>s\<in>set servers. \<not> isEnabled (transfers st) (name s)) \<and> out1 = Fulfilled
           \<or> (\<exists>s\<in>set servers. isEnabled (transfers st) (name s) \<and> serverInfo env (name s) = None
                 \<and> out1 = Rejected (TypeError (name s)))"
      by (simp add: stq_def)
    with 1 up b a show ?thesis by (intro idle [of t l1]) (simp_all add: stq_def)
  next
    case (2 n f tr2)
    with up b a show ?thesis by (intro call [of t l1 n f tr2]) (simp_all add: stq_def)
  qed
qed

lemma upload_empty:
  assumes "sanitizeFiles env (cleanPrivateData st) (files st) = None
           \<or> sanitizeFiles env (cleanPrivateData st) (files st) = Some []"
    and "upload env servers st = (tr, st', out)"
  shows "tr = [] \<and> st' = st"
  using assms by (auto simp: upload_def)

lemma upload_steps:
  assumes "upload env servers st = (tr, st', out)"
  shows "steps st tr \<and> st' = lastState st tr"
proof (cases "\<exists>fs. sanitizeFiles env (cleanPrivateData st) (files st) = Some fs \<and> fs \<noteq> []")
  case False
  then have "sanitizeFiles env (cleanPrivateData st) (files st) = None
           \<or> sanitizeFiles env (cleanPrivateData st) (files st) = Some []"
    by (cases "sanitizeFiles env (cleanPrivateData st) (files st)") auto
  from upload_empty [OF this assms] show ?thesis by simp
next
  case True
  then obtain fs where fs: "sanitizeFiles env (cleanPrivateData st) (files st) = Some fs" "fs \<noteq> []"
    by blast
  from fs assms show ?thesis
  proof (cases rule: upload_nonempty)
    case (idle t l1)
    then show ?thesis by auto
  next
    case (call t l1 n f tr2)
    have "map_option transferred (l1 m) = map_option transferred (transfers st m)" for m
      using setSizes_entry [OF call(1), of m] by auto
    with serverLoop_steps [OF call(2)] call(3) show ?thesis by auto
  qed
qed

lemma steps_nth:
  "steps st tr \<Longrightarrow> i < length tr \<Longrightarrow> effect (fst (tr ! i)) ((st # map snd tr) ! i) (snd (tr ! i))"
proof (induction tr arbitrary: st i)
  case Nil
  then show ?case by simp
next
  case (Cons p tr)
  obtain ev s where p: "p = (ev, s)" by (cases p)
  show ?case
  proof (cases i)
    case 0
    with Cons.prems p show ?thesis by simp
  next
    case (Suc j)
    with Cons.prems p Cons.IH [of s j] show ?thesis by simp
  qed
qed

lemma effect_transferredOf:
  "effect ev s s' \<Longrightarrow> transferredOf n s' = transferredOf n s + added n ev"
proof (cases ev)
  case (Render t)
  assume "effect ev s s'"
  with Render have "map_option transferred (transfers s' n) = map_option transferred (transfers s n)"
    by simp
  with Render show ?thesis
    by (cases "transfers s n"; cases "transfers s' n") (auto simp: transferredOf_def)
next
  case (AddTransferred m f)
  assume "effect ev s s'"
  with AddTransferred show ?thesis
    by (auto simp: transferredOf_def)
qed (auto simp: transferredOf_def)

lemma steps_transferred_ge:
  "steps st tr \<Longrightarrow> x \<in> snd ` set tr \<Longrightarrow> transferredOf n st \<le> transferredOf n x"
proof (induction tr arbitrary: st)
  case Nil
  then show ?case by simp
next
  case (Cons p tr)
  obtain ev s where p: "p = (ev, s)" by (cases p)
  with Cons.prems have e: "effect ev st s" and r: "steps s tr" by auto
  from effect_transferredOf [OF e, of n] have le: "transferredOf n st \<le> transferredOf n s" by simp
  from Cons.prems(2) p consider "x = s" | "x \<in> snd ` set tr" by auto
  then show ?case
  proof cases
    case 1
    with le show ?thesis by simp
  next
    case 2
    from Cons.IH [OF r 2] le show ?thesis by simp
  qed
qed

lemma steps_sorted:
  "steps st tr \<Longrightarrow> sorted (map (transferredOf n) (st # map snd tr))"
proof (induction tr arbitrary: st)
  case Nil
  then show ?case by simp
next
  case (Cons p tr)
  obtain ev s where p: "p = (ev, s)" by (cases p)
  with Cons.prems have r: "steps s tr" by auto
  have "\<forall>x\<in>snd ` set (p # tr). transferredOf n st \<le> transferredOf n x"
    using steps_transferred_ge [OF Cons.prems] by blast
  with Cons.IH [OF r, of ] p show ?case by auto
qed

lemma steps_call:
  assumes "steps st tr" and "tr = tr0 @ (ev, x) # r"
    and "(\<exists>n f. ev = GetUploadAuth n f) \<or> (\<exists>n u f. ev = UploadBlob n u f)"
  shows "lastState st tr0 = x"
proof -
  from assms(1,2) have "effect ev (lastState st tr0) x" by (simp add: steps_append)
  with assms(3) show ?thesis by auto
qed

lemma upload_settled:
  assumes "sanitizeFiles env (cleanPrivateData st) (files st) = Some fs" and "fs \<noteq> []"
    and "upload env servers st = (tr, st', out)"
  obtains t l1 tr1 st1 where
    "setSizes servers (totalSize fs) (transfers st) = (t, l1)"
    "serverLoop env fs servers (st\<lparr>transfers := l1, queued := None\<rparr>) = (tr1, st1, out)"
    "files st' = files st1"
    "\<And>m. count_list (map fst tr) (InvalidateQueries m) = count_list (map fst tr1) (InvalidateQueries m)"
    "count_list (map fst tr) SetFiles = count_list (map fst tr1) SetFiles"
    "tr1 = [] \<and> st1 = st\<lparr>transfers := l1, queued := None\<rparr>
       \<and> tr = [(SetTransfers, st\<lparr>queued := Some (setSizes servers (totalSize fs))\<rparr>)]
       \<and> st' = st\<lparr>queued := Some (setSizes servers (totalSize fs))\<rparr>
     \<or> (\<exists>n f tr2. tr1 = (GetUploadAuth n f, st\<lparr>transfers := l1, queued := None\<rparr>) # tr2
           \<and> tr = (SetTransfers, st\<lparr>queued := Some (setSizes servers (totalSize fs))\<rparr>)
                  # (GetUploadAuth n f, st\<lparr>queued := Some (setSizes servers (totalSize fs))\<rparr>)
                  # (Render t, st\<lparr>transfers := l1, queued := None\<rparr>) # tr2
           \<and> st' = st1)"
  using assms
proof (cases rule: upload_nonempty)
  case (idle t l1)
  show ?thesis
    by (rule that [OF idle(1,2)]) (simp_all add: idle)
next
  case (call t l1 n f tr2)
  show ?thesis
    by (rule that [OF call(1,2)]) (simp_all add: call)
qed

lemma upload_rejected_at:
  assumes "sanitizeFiles env (cleanPrivateData st) (files st) = Some fs" and "fs \<noteq> []"
    and "distinct (map name (pre @ d # post))"
    and "upload env (pre @ d # post) st = (tr, st', Rejected err)"
    and "errServer err = Some (name d)"
  obtains t l1 tra sta trb st1 where
    "setSizes (pre @ d # post) (totalSize fs) (transfers st) = (t, l1)"
    "serverLoop env fs pre (st\<lparr>transfers := l1, queued := None\<rparr>) = (tra, sta, Fulfilled)"
    "serverPass env fs d sta = (trb, st1, Rejected err)"
    "queued sta = None"
    "files st' = files st1"
    "\<And>m. count_list (map fst tr) (InvalidateQueries m)
            = count_list (map fst (tra @ trb)) (InvalidateQueries m)"
    "count_list (map fst tr) SetFiles = count_list (map fst (tra @ trb)) SetFiles"
    "tra @ trb = [] \<and> st1 = st\<lparr>transfers := l1, queued := None\<rparr>
       \<and> tr = [(SetTransfers, st\<lparr>queued := Some (setSizes (pre @ d # post) (totalSize fs))\<rparr>)]
       \<and> st' = st\<lparr>queued := Some (setSizes (pre @ d # post) (totalSize fs))\<rparr>
     \<or> (\<exists>n f tr2. tra @ trb = (GetUploadAuth n f, st\<lparr>transfers := l1, queued := None\<rparr>) # tr2
           \<and> tr = (SetTransfers, st\<lparr>queued := Some (setSizes (pre @ d # post) (totalSize fs))\<rparr>)
                  # (GetUploadAuth n f, st\<lparr>queued := Some (setSizes (pre @ d # post) (totalSize fs))\<rparr>)
                  # (Render t, st\<lparr>transfers := l1, queued := None\<rparr>) # tr2
           \<and> st' = st1)"
  using assms(1,2,4)
proof (cases rule: upload_settled)
  case (1 t l1 tr1 st1)
  have q: "queued (st\<lparr>transfers := l1, queued := None\<rparr>) = None" by simp
  from serverLoop_rejected_at [OF 1(2) assms(5,3) q] obtain tra sta trb where
    a: "serverLoop env fs pre (st\<lparr>transfers := l1, queued := None\<rparr>) = (tra, sta, Fulfilled)"
    "serverPass env fs d sta = (trb, st1, Rejected err)" "tr1 = tra @ trb"
    by blast
  note qa = serverLoop_queued_None [OF a(1) q]
  show ?thesis
    by (rule that [OF 1(1) a(1,2) qa 1(3)]) (use 1(4,5,6) a(3) in simp_all)
qed


lemma pending_trace_last:
  assumes "tr1 = pfx @ [(cev, y)]" and "tr1 = (ev, sts) # tr2"
    and "tr = (SetTransfers, stq) # (ev, stq) # (Render t, sts) # tr2"
  shows "pfx = [] \<and> tr = [(SetTransfers, stq)] @ (cev, stq) # [(Render t, y)] \<and> y = sts
       \<or> pfx \<noteq> [] \<and> (\<exists>p. tr = p @ [(cev, y)])"
  using assms by (cases pfx) auto

lemma upload_rejected_call:
  assumes "sanitizeFiles env (cleanPrivateData st) (files st) = Some fs" and "fs \<noteq> []"
    and "distinct (map name (pre @ d # post))"
    and "upload env (pre @ d # post) st = (tr, st', Rejected err)"
    and "err = AuthRejected (name d) k \<or> err = UploadRejected (name d) k"
  shows "k < length fs
       \<and> transfers st' (name d)
            = entryPlus (totalSize (take k fs))
                (snd (setSizes (pre @ d # post) (totalSize fs) (transfers st)) (name d))
       \<and> isEnabled (transfers st) (name d)
       \<and> (\<exists>url. serverInfo env (name d) = Some url
            \<and> (\<exists>tr0 x r. tr = tr0 @ (if err = AuthRejected (name d) k then GetUploadAuth (name d) (fs ! k)
                                      else UploadBlob (name d) url (fs ! k), x) # r
                  \<and> (r = [] \<and> x = st'
                       \<or> (\<exists>t. r = [(Render t, st')]) \<and> err = AuthRejected (name d) k
                           \<and> tr0 = [(SetTransfers, x)]
                           \<and> transfers st'
                                = snd (setSizes (pre @ d # post) (totalSize fs) (transfers x)))))
       \<and> (\<forall>s\<in>set post. (\<forall>(ev, x)\<in>set tr. destOf ev \<noteq> Some (name s))
              \<and> transfers st' (name s)
                   = snd (setSizes (pre @ d # post) (totalSize fs) (transfers st)) (name s))"
proof -
  from assms(5) have es: "errServer err = Some (name d)" by auto
  from assms(1-4) es show ?thesis
  proof (cases rule: upload_rejected_at)
    case (1 t l1 tra sta trb st1)
    note sz = 1(1) and pre = 1(2) and pass = 1(3) and qa = 1(4) and shape = 1(8)
    define sts where "sts = st\<lparr>transfers := l1, queued := None\<rparr>"
    define stq where "stq = st\<lparr>queued := Some (setSizes (pre @ d # post) (totalSize fs))\<rparr>"
    have q: "queued sts = None" by (simp add: sts_def)
    note pre' = pre [folded sts_def]
    have l1: "snd (setSizes (pre @ d # post) (totalSize fs) (transfers st)) = l1" using sz by simp
    have sta: "sta \<in> insert sta (snd ` set tra)" by simp
    note fr = serverLoop_states [OF pre' sta q]
    from assms(3) have nd: "name d \<notin> name ` set pre" by auto
    with fr have d0: "transfers sta (name d) = l1 (name d)" by (simp add: sts_def)
    from pass obtain url where en: "isEnabled (transfers sta) (name d)"
      and url: "serverInfo env (name d) = Some url"
      and fl: "fileLoop env (name d) url 0 fs sta = (trb, st1, Rejected err)"
      using assms(5) by (cases rule: serverPass_cases) auto
    from en fr setSizes_isEnabled [OF sz] have en0: "isEnabled (transfers st) (name d)"
      by (simp add: sts_def)
    from fileLoop_Rejected [OF fl qa] assms(5) obtain j where j: "j < length fs"
      "transfers st1 (name d) = entryPlus (totalSize (take j fs)) (transfers sta (name d))"
      "err = AuthRejected (name d) j \<and> (\<exists>tr0. trb = tr0 @ [(GetUploadAuth (name d) (fs ! j), st1)])
       \<or> err = UploadRejected (name d) j
           \<and> (\<exists>tr0. trb = tr0 @ [(GetUploadAuth (name d) (fs ! j), st1), (UploadBlob (name d) url (fs ! j), st1)])"
      by auto
    from j(3) assms(5) have jk: "j = k" by auto
    define cev where "cev = (if err = AuthRejected (name d) k then GetUploadAuth (name d) (fs ! k)
                             else UploadBlob (name d) url (fs ! k))"
    from j(3) jk assms(5) obtain pfx where
      pfx: "tra @ trb = pfx @ [(cev, st1)]" "err = UploadRejected (name d) k \<longrightarrow> pfx \<noteq> []"
    proof (cases "err = AuthRejected (name d) k")
      case True
      with j(3) jk obtain tr0 where "trb = tr0 @ [(GetUploadAuth (name d) (fs ! k), st1)]" by auto
      with True that [of "tra @ tr0"] show ?thesis by (simp add: cev_def)
    next
      case False
      with assms(5) have u: "err = UploadRejected (name d) k" by simp
      with j(3) jk obtain tr0 where
        "trb = tr0 @ [(GetUploadAuth (name d) (fs ! k), st1), (UploadBlob (name d) url (fs ! k), st1)]"
        by auto
      with u that [of "tra @ tr0 @ [(GetUploadAuth (name d) (fs ! k), st1)]"] show ?thesis
        by (simp add: cev_def)
    qed
    from pfx(1) have ne: "tra @ trb \<noteq> []" by simp
    with shape obtain n f tr2 where
      t1: "tra @ trb = (GetUploadAuth n f, sts) # tr2"
      and tr: "tr = (SetTransfers, stq) # (GetUploadAuth n f, stq) # (Render t, sts) # tr2"
      and st': "st' = st1"
      unfolding sts_def stq_def by blast
    have last: "\<exists>tr0 x r. tr = tr0 @ (cev, x) # r
                  \<and> (r = [] \<and> x = st'
                       \<or> (\<exists>t. r = [(Render t, st')]) \<and> err = AuthRejected (name d) k
                           \<and> tr0 = [(SetTransfers, x)]
                           \<and> transfers st'
                                = snd (setSizes (pre @ d # post) (totalSize fs) (transfers x)))"
      using pending_trace_last [OF pfx(1) t1 tr]
    proof (elim disjE conjE exE)
      assume a: "pfx = []" "tr = [(SetTransfers, stq)] @ (cev, stq) # [(Render t, st1)]" "st1 = sts"
      from a(1) pfx(2) assms(5) have "err = AuthRejected (name d) k" by auto
      moreover have "transfers st1 = snd (setSizes (pre @ d # post) (totalSize fs) (transfers stq))"
        using a(3) l1 by (simp add: sts_def stq_def)
      ultimately show ?thesis using a(2) st'
        by (intro exI [of _ "[(SetTransfers, stq)]"] exI [of _ stq] exI [of _ "[(Render t, st1)]"]) simp
    next
      fix p assume "tr = p @ [(cev, st1)]"
      with st' show ?thesis by (intro exI [of _ p] exI [of _ st'] exI [of _ "[]"]) simp
    qed
    have post: "(\<forall>(ev, x)\<in>set tr. destOf ev \<noteq> Some (name s))
                \<and> transfers st' (name s) = l1 (name s)" if s: "s \<in> set post" for s
    proof -
      from s have "name s \<in> name ` set post" by simp
      with assms(3) have ns: "name s \<notin> name ` set pre" "name s \<noteq> name d" by auto
      have s1: "st1 \<in> insert st1 (snd ` set trb)" by simp
      from serverPass_states [OF pass s1 qa] ns(2) fr ns(1) st'
      have e: "transfers st' (name s) = l1 (name s)" by (simp add: sts_def)
      have "destOf ev \<noteq> Some (name s)" if "(ev, x) \<in> set tr" for ev x
      proof -
        from that tr t1 have "ev = SetTransfers \<or> ev = Render t \<or> ev \<in> fst ` set (tra @ trb)"
          by force
        then consider "ev = SetTransfers" | "ev = Render t" | y where "(ev, y) \<in> set tra"
          | y where "(ev, y) \<in> set trb" by auto
        then show ?thesis
        proof cases
          case 3
          from ns(1) have "\<forall>p\<in>set pre. name p \<noteq> name s" by (metis imageI)
          with serverLoop_events [OF pre' 3 q] show ?thesis by auto
        next
          case 4
          from serverPass_events [OF pass 4 qa] ns(2) show ?thesis by auto
        qed simp_all
      qed
      with e show ?thesis by auto
    qed
    from j(1) jk have c1: "k < length fs" by simp
    from j(2) jk d0 st' l1 have c2: "transfers st' (name d)
            = entryPlus (totalSize (take k fs))
                (snd (setSizes (pre @ d # post) (totalSize fs) (transfers st)) (name d))" by simp
    from url last have c4: "\<exists>url. serverInfo env (name d) = Some url
            \<and> (\<exists>tr0 x r. tr = tr0 @ (if err = AuthRejected (name d) k then GetUploadAuth (name d) (fs ! k)
                                      else UploadBlob (name d) url (fs ! k), x) # r
                  \<and> (r = [] \<and> x = st'
                       \<or> (\<exists>t. r = [(Render t, st')]) \<and> err = AuthRejected (name d) k
                           \<and> tr0 = [(SetTransfers, x)]
                           \<and> transfers st'
                                = snd (setSizes (pre @ d # post) (totalSize fs) (transfers x))))"
      unfolding cev_def by blast
    from post l1 have c5: "\<forall>s\<in>set post. (\<forall>(ev, x)\<in>set tr. destOf ev \<noteq> Some (name s))
              \<and> transfers st' (name s)
                   = snd (setSizes (pre @ d # post) (totalSize fs) (transfers st)) (name s)" by simp
    from c1 c2 en0 c4 c5 show ?thesis by (intro conjI)
  qed
qed





section \<open>Ledgers the component can reach\<close>

text \<open>
  The reset establishes the two properties; the checkbox, a new selection and a batch keep them.
\<close>

lemma clearTransfers_reachable:
  "covered servers (clearTransfers servers st) \<and> inert (clearTransfers servers st)"
  by (auto simp: covered_def inert_def clearTransfers_def foldl_fresh split: if_splits)

lemma onChange_reachable:
  "covered servers st \<Longrightarrow> inert st \<Longrightarrow>
     covered servers (onChange s c st) \<and> inert (onChange s c st)"
  by (auto simp: covered_def inert_def onChange_def split: if_splits)

lemma handleFileChange_reachable:
  "covered servers st \<Longrightarrow> inert st \<Longrightarrow>
     covered servers (handleFileChange fs st) \<and> inert (handleFileChange fs st)"
  by (auto simp: covered_def inert_def handleFileChange_def)

lemma serverLoop_dom:
  assumes "serverLoop env fs ss st = (tr, st', out)" and "x \<in> insert st' (snd ` set tr)"
    and "queued st = None"
  shows "(transfers x m = None) = (transfers st m = None)"
  using assms
proof (induction ss arbitrary: st tr st' out)
  case Nil
  then show ?case by simp
next
  case (Cons s ss)
  note q = Cons.prems(3)
  have pass: "(transfers y m = None) = (transfers st m = None)"
    if "serverPass env fs s st = (tr1, st1, out1)" "y \<in> insert st1 (snd ` set tr1)" for tr1 st1 out1 y
  proof (cases "m = name s")
    case True
    from serverPass_states [OF that q] obtain a where
      "transfers y (name s) = entryPlus a (transfers st (name s))" by blast
    with True show ?thesis by (simp add: entryPlus_def)
  next
    case False
    with serverPass_states [OF that q] show ?thesis by simp
  qed
  from Cons.prems(1) show ?case
  proof (cases rule: serverLoop_Cons_cases)
    case (stop err)
    from pass [OF stop(1) Cons.prems(2)] show ?thesis .
  next
    case (continue tr1 st1 tr2)
    have st1: "st1 \<in> insert st1 (snd ` set tr1)" by simp
    from Cons.prems(2) continue(3) consider "x \<in> snd ` set tr1" | "x \<in> insert st' (snd ` set tr2)"
      by auto
    then show ?thesis
    proof cases
      case 1
      then have "x \<in> insert st1 (snd ` set tr1)" by simp
      from pass [OF continue(1) this] show ?thesis .
    next
      case 2
      from Cons.IH [OF continue(2) 2 serverPass_queued [OF continue(1) q]] pass [OF continue(1) st1]
      show ?thesis by simp
    qed
  qed
qed

lemma upload_reachable:
  assumes "upload env servers st = (tr, st', out)" and "covered servers st" and "inert st"
  shows "covered servers st' \<and> inert st'"
proof (cases "\<exists>fs. sanitizeFiles env (cleanPrivateData st) (files st) = Some fs \<and> fs \<noteq> []")
  case False
  then have "sanitizeFiles env (cleanPrivateData st) (files st) = None
           \<or> sanitizeFiles env (cleanPrivateData st) (files st) = Some []"
    by (cases "sanitizeFiles env (cleanPrivateData st) (files st)") auto
  from upload_empty [OF this assms(1)] assms(2,3) show ?thesis by simp
next
  case True
  then obtain fs where fs: "sanitizeFiles env (cleanPrivateData st) (files st) = Some fs" "fs \<noteq> []"
    by blast
  from fs assms(1) show ?thesis
  proof (cases rule: upload_settled)
    case (1 t l1 tr1 st1)
    note sz = 1(1) and lp = 1(2)
    have q: "queued (st\<lparr>transfers := l1, queued := None\<rparr>) = None" by simp
    have tr': "transfers st' = transfers st \<or> st' = st1" using 1(6) by auto
    have st1: "st1 \<in> insert st1 (snd ` set tr1)" by simp
    have dom1: "(transfers st1 m = None) = (transfers st m = None)" for m
      using serverLoop_dom [OF lp st1 q, of m] setSizes_entry [OF sz, of m] by auto
    have en1: "isEnabled (transfers st1) m = isEnabled (transfers st) m" for m
      using serverLoop_states [OF lp st1 q] setSizes_isEnabled [OF sz, of m] by simp
    have in1: "e = \<lparr>enabled = False, size_stats = 0, transferred = 0\<rparr>"
      if e: "transfers st1 n = Some e" "\<not> enabled e" for n e
    proof -
      from e en1 [of n] have dis: "\<not> isEnabled (transfers st) n" by (simp add: isEnabled_def)
      from e dom1 [of n] obtain e0 where e0: "transfers st n = Some e0" by auto
      with dis have ne: "\<not> enabled e0" by (simp add: isEnabled_def)
      from setSizes_entry [OF sz, of n] e0 ne have l1: "l1 n = Some e0" by auto
      with ne have "\<not> isEnabled (transfers (st\<lparr>transfers := l1, queued := None\<rparr>)) n"
        by (simp add: isEnabled_def)
      from serverLoop_disabled [OF lp st1 this q] l1 e have "e = e0" by simp
      with assms(3) e0 ne show ?thesis by (auto simp: inert_def)
    qed
    from tr' show ?thesis
    proof
      assume "transfers st' = transfers st"
      with assms(2,3) show ?thesis by (simp add: covered_def inert_def)
    next
      assume "st' = st1"
      with in1 have "inert st'" by (auto simp: inert_def)
      moreover have "covered servers st'" using assms(2) dom1 \<open>st' = st1\<close> by (simp add: covered_def)
      ultimately show ?thesis by simp
    qed
  qed
qed

section \<open>Claim C4: the sizing\<close>




section \<open>Claim C7: disabled servers\<close>

text \<open>
  Claim C7. A server whose entry is disabled when the batch starts is skipped by the
  sizing and by the loop: no event of the trace is made in a pass of this server (no
  \<^verbatim>\<open>getUploadAuth\<close>, no \<^verbatim>\<open>uploadBlob\<close>, no addition, no invalidation), and its entry is
  the same in every state of the batch and at its end. In every ledger the component
  can reach a disabled entry is \<open>{enabled: false, size: 0, transferred: 0}\<close> (\<open>inert\<close>), so
  this is the entry that stays.
\<close>

theorem disabled_server_untouched:
  assumes "transfers st (name d) = Some e" and "\<not> enabled e"
    and "upload env servers st = (tr, st', out)"
  shows "(\<forall>(ev, x)\<in>set tr. destOf ev \<noteq> Some (name d) \<and> transfers x (name d) = Some e)
         \<and> transfers st' (name d) = Some e"
proof (cases "\<exists>fs. sanitizeFiles env (cleanPrivateData st) (files st) = Some fs \<and> fs \<noteq> []")
  case False
  then have "sanitizeFiles env (cleanPrivateData st) (files st) = None
           \<or> sanitizeFiles env (cleanPrivateData st) (files st) = Some []"
    by (cases "sanitizeFiles env (cleanPrivateData st) (files st)") auto
  from upload_empty [OF this assms(3)] assms(1) show ?thesis by simp
next
  case True
  then obtain fs where fs: "sanitizeFiles env (cleanPrivateData st) (files st) = Some fs" "fs \<noteq> []"
    by blast
  from fs assms(3) show ?thesis
  proof (cases rule: upload_nonempty)
    case (idle t l1)
    with assms(1) show ?thesis by simp
  next
    case (call t l1 n f tr2)
    note sz = call(1) and lp = call(2) and tr = call(3)
    define sts where "sts = st\<lparr>transfers := l1, queued := None\<rparr>"
    have q: "queued sts = None" by (simp add: sts_def)
    from setSizes_entry [OF sz, of "name d"] assms(1,2) have l1: "l1 (name d) = Some e" by auto
    with assms(2) have dis: "\<not> isEnabled (transfers sts) (name d)"
      by (simp add: isEnabled_def sts_def)
    note lp' = lp [folded sts_def]
    have states: "transfers x (name d) = Some e"
      if "x \<in> insert st' (snd ` set ((GetUploadAuth n f, sts) # tr2))" for x
      using serverLoop_disabled [OF lp' that dis q] l1 by (simp add: sts_def)
    have events: "destOf ev \<noteq> Some (name d)" if "(ev, x) \<in> set ((GetUploadAuth n f, sts) # tr2)" for ev x
      using serverLoop_events [OF lp' that q] dis by auto
    have all: "destOf ev \<noteq> Some (name d) \<and> transfers x (name d) = Some e"
      if "(ev, x) \<in> set tr" for ev x
    proof -
      from that tr consider "ev = SetTransfers" "transfers x = transfers st"
        | "ev = GetUploadAuth n f" "transfers x = transfers st"
        | "ev = Render t" "x = sts"
        | "(ev, x) \<in> set tr2"
        by (auto simp: sts_def)
      then show ?thesis
      proof cases
        case 1
        with assms(1) show ?thesis by simp
      next
        case 2
        with assms(1) events [of "GetUploadAuth n f" sts] show ?thesis by simp
      next
        case 3
        with states [of sts] show ?thesis by simp
      next
        case 4
        then have "x \<in> insert st' (snd ` set ((GetUploadAuth n f, sts) # tr2))" by force
        with events [of ev x] 4 states show ?thesis by auto
      qed
    qed
    have "transfers st' (name d) = Some e" using states by simp
    moreover have "\<forall>(ev, x)\<in>set tr. destOf ev \<noteq> Some (name d) \<and> transfers x (name d) = Some e"
      using all by auto
    ultimately show ?thesis by (rule conjI [rotated])
  qed
qed

text \<open>With B unticked, no event of the run is made for B and its entry stays inert.\<close>

theorem disabled_server_untouched_witness:
  "list_all (\<lambda>(ev, x). destOf ev \<noteq> Some ''B''
       \<and> transfers x ''B'' = Some \<lparr>enabled = False, size_stats = 0, transferred = 0\<rparr>) (fst runOneOff)
   \<and> transfers (fst (snd runOneOff)) ''B'' = Some \<lparr>enabled = False, size_stats = 0, transferred = 0\<rparr>"
proof -
  have h1: "transfers stOneOff (name srvB) = Some \<lparr>enabled = False, size_stats = 0, transferred = 0\<rparr>"
    by (simp add: data_defs run_defs)
  have h2: "\<not> enabled \<lparr>enabled = False, size_stats = 0, transferred = 0\<rparr>" by simp
  have h3: "upload envOk [srvA, srvB] stOneOff = (fst runOneOff, fst (snd runOneOff), snd (snd runOneOff))"
    by (simp add: runOneOff_def)
  from disabled_server_untouched [OF h1 h2 h3] show ?thesis by (simp add: srvB_def list_all_iff)
qed

section \<open>Claim C5: the transferred counter\<close>

text \<open>
  The claim as stated fails for a second batch: nothing resets \<open>transferred\<close> when a
  batch starts. After a batch of 100 bytes to A, a batch of 50 bytes sizes A to 50 and
  raises its counter from 100 to 150.
\<close>

theorem transferred_exceeds_size_counterexample:
  "transfers (fst (snd (upload envOk [srvA]
       (handleFileChange [file50] (fst (snd (upload envOk [srvA] (stA [file100])))))))) ''A''
     = Some \<lparr>enabled = True, size_stats = 50, transferred = 150\<rparr>"
  by (simp add: data_defs run_defs)

text \<open>
  Claim C5, amended. In a batch over servers with unique names that all have an entry,
  for every name with an entry: each event changes its \<open>transferred\<close> counter by exactly
  what the event adds (the size of the file at an addition for this server, nothing
  otherwise), so the counter never decreases; and in every state of the batch, before
  and after the sizing, the counter is at most its value at the start of the batch plus
  \<open>size\<close>. It is at most \<open>size\<close> when it was 0 at the start, as after \<open>clearTransfers\<close> or a
  click on the checkbox.
\<close>

theorem transferred_accounting:
  assumes "sanitizeFiles env (cleanPrivateData st) (files st) = Some fs" and "fs \<noteq> []"
    and "distinct (map name servers)"
    and "\<forall>s\<in>set servers. transfers st (name s) \<noteq> None"
    and "transfers st n = Some e"
    and "upload env servers st = (tr, st', out)"
  shows "(\<forall>i<length tr. transferredOf n (snd (tr ! i))
             = transferredOf n ((st # map snd tr) ! i) + added n (fst (tr ! i)))
       \<and> sorted (map (transferredOf n) (st # map snd tr))
       \<and> (\<forall>(ev, x)\<in>set tr. transferredOf n x \<le> transferred e + sizeOf n x)
       \<and> (transferred e = 0 \<longrightarrow> (\<forall>(ev, x)\<in>set tr. transferredOf n x \<le> sizeOf n x))"
proof -
  note st = upload_steps [OF assms(6)]
  have a: "\<forall>i<length tr. transferredOf n (snd (tr ! i))
             = transferredOf n ((st # map snd tr) ! i) + added n (fst (tr ! i))"
    using st steps_nth effect_transferredOf by blast
  have b: "sorted (map (transferredOf n) (st # map snd tr))"
    using st steps_sorted by blast
  have c: "transferredOf n x \<le> transferred e + sizeOf n x" if "(ev, x) \<in> set tr" for ev x
    using assms(1,2,6)
  proof (cases rule: upload_nonempty)
    case (idle t l1)
    with that assms(5) show ?thesis by (auto simp: transferredOf_def)
  next
    case (call t l1 m f tr2)
    note sz = call(1) and lp = call(2) and tr = call(3)
    define sts where "sts = st\<lparr>transfers := l1, queued := None\<rparr>"
    have q: "queued sts = None" by (simp add: sts_def)
    note lp' = lp [folded sts_def]
    from setSizes_covered [OF assms(4), of "totalSize fs" n] sz assms(5)
    have l1: "l1 n = Some (if enabled e \<and> n \<in> name ` set servers then e\<lparr>size_stats := totalSize fs\<rparr> else e)"
      by simp
    show ?thesis
    proof (cases "transfers x = transfers st")
      case True
      with assms(5) show ?thesis by (simp add: transferredOf_def)
    next
      case False
      with that tr have "x = sts \<or> (ev, x) \<in> set tr2" by (auto simp: sts_def)
      then have x: "x \<in> insert st' (snd ` set ((GetUploadAuth m f, sts) # tr2))" by force
      show ?thesis
      proof (cases "enabled e \<and> n \<in> name ` set servers")
        case False
        then have "\<not> isEnabled (transfers sts) n \<or> n \<notin> name ` set servers"
          using l1 by (auto simp: isEnabled_def sts_def)
        then have "transfers x n = l1 n"
          using serverLoop_disabled [OF lp' x _ q, of n] serverLoop_states [OF lp' x q]
          by (auto simp: sts_def)
        with l1 False show ?thesis by (auto simp: transferredOf_def sizeOf_def)
      next
        case en: True
        from serverLoop_bound [OF lp' x assms(3) q, of n] obtain a where
          "a \<le> totalSize fs" "transfers x n = entryPlus a (l1 n)" by (auto simp: sts_def)
        with l1 en show ?thesis by (auto simp: transferredOf_def sizeOf_def entryPlus_def)
      qed
    qed
  qed
  have c': "\<forall>(ev, x)\<in>set tr. transferredOf n x \<le> transferred e + sizeOf n x"
    using c by auto
  have d: "transferred e = 0 \<longrightarrow> (\<forall>(ev, x)\<in>set tr. transferredOf n x \<le> sizeOf n x)"
    using c by auto
  from a b c' d show ?thesis by (intro conjI)
qed

text \<open>With A ticked, B unticked and a fresh ledger, the counter of A grows and stays below its size.\<close>

theorem transferred_accounting_witness:
  "sorted (map (transferredOf ''A'') (stOneOff # map snd (fst runOneOff)))
   \<and> list_all (\<lambda>(ev, x). transferredOf ''A'' x \<le> sizeOf ''A'' x) (fst runOneOff)"
proof -
  have h1: "sanitizeFiles envOk (cleanPrivateData stOneOff) (files stOneOff) = Some [file100, file200]"
    by (simp add: data_defs run_defs)
  have h2: "[file100, file200] \<noteq> []" by simp
  have h3: "distinct (map name [srvA, srvB])" by (simp add: data_defs)
  have h4: "\<forall>s\<in>set [srvA, srvB]. transfers stOneOff (name s) \<noteq> None"
    by (simp add: data_defs run_defs)
  have h5: "transfers stOneOff ''A'' = Some \<lparr>enabled = True, size_stats = 0, transferred = 0\<rparr>"
    by (simp add: data_defs run_defs)
  have h6: "upload envOk [srvA, srvB] stOneOff = (fst runOneOff, fst (snd runOneOff), snd (snd runOneOff))"
    by (simp add: runOneOff_def)
  note w = transferred_accounting [OF h1 h2 h3 h4 h5 h6]
  from w [THEN conjunct2, THEN conjunct1] w [THEN conjunct2, THEN conjunct2, THEN conjunct2]
  show ?thesis by (simp add: list_all_iff)
qed

section \<open>Claim C6: a failed transport\<close>

text \<open>
  The claim as stated fails for a second batch. After a batch of 100 bytes to A, a batch
  of two files of 50 and 200 bytes whose second transport fails leaves the counter of A
  at 150, not at the 50 bytes of the one file sent before the failure.
\<close>

theorem transport_failure_second_batch_counterexample:
  "snd (snd (upload envFailSecond [srvA]
       (handleFileChange [file50, file200] (fst (snd (upload envOk [srvA] (stA [file100])))))))
     = Rejected (UploadRejected ''A'' 1)
   \<and> transfers (fst (snd (upload envFailSecond [srvA]
       (handleFileChange [file50, file200] (fst (snd (upload envOk [srvA] (stA [file100])))))))) ''A''
     = Some \<lparr>enabled = True, size_stats = 250, transferred = 150\<rparr>
   \<and> totalSize (take 1 [file50, file200]) = 50"
  by (simp add: data_defs run_defs)

text \<open>
  Claim C6, amended. In a batch over servers with unique names that all have an entry,
  if \<^verbatim>\<open>uploadBlob\<close> rejects for the file at position \<open>k\<close> (counted from 0) in the pass of
  server \<open>d\<close>, then the counter of \<open>d\<close> is its value at the start of the batch plus the
  sizes of the \<open>k\<close> files before, and its \<open>size\<close> is the sum of all sizes; the state after
  the failing call is the state before it, so the failure changes no entry; and the
  entries of the servers after \<open>d\<close> are as the sizing left them: \<open>size\<close> is the sum of all
  sizes where the entry is enabled, and nothing else has changed since the start of
  the batch.
\<close>

theorem transport_failure_accounting:
  assumes "sanitizeFiles env (cleanPrivateData st) (files st) = Some fs" and "fs \<noteq> []"
    and "distinct (map name servers)" and "\<forall>s\<in>set servers. transfers st (name s) \<noteq> None"
    and "servers = pre @ d # post" and "transfers st (name d) = Some e"
    and "upload env servers st = (tr, st', Rejected (UploadRejected (name d) k))"
  shows "k < length fs
       \<and> transfers st' (name d)
            = Some (e\<lparr>size_stats := totalSize fs, transferred := transferred e + totalSize (take k fs)\<rparr>)
       \<and> lastState st (butlast tr) = st'
       \<and> (\<forall>s\<in>set post. transfers st' (name s)
             = map_option (\<lambda>e'. if enabled e' then e'\<lparr>size_stats := totalSize fs\<rparr> else e')
                 (transfers st (name s)))"
proof -
  have "UploadRejected (name d) k = AuthRejected (name d) k \<or> UploadRejected (name d) k = UploadRejected (name d) k"
    by simp
  note r = upload_rejected_call [OF assms(1,2) assms(3) [unfolded assms(5)] assms(7) [unfolded assms(5)] this]
  from r [THEN conjunct2, THEN conjunct2, THEN conjunct2, THEN conjunct1]
  obtain tr0 u where tr: "tr = tr0 @ [(UploadBlob (name d) u (fs ! k), st')]" by auto
  from upload_steps [OF assms(7)] have "steps st tr" by simp
  from steps_call [OF this, of tr0 _ st' "[]"] tr have "lastState st tr0 = st'" by auto
  with tr have unchanged: "lastState st (butlast tr) = st'" by simp
  note cov = setSizes_covered [OF assms(4), of "totalSize fs", THEN conjunct2]
  from r assms(6) have "enabled e" by (simp add: isEnabled_def)
  with cov [of "name d"] assms(5,6)
  have "snd (setSizes (pre @ d # post) (totalSize fs) (transfers st)) (name d)
          = Some (e\<lparr>size_stats := totalSize fs\<rparr>)" by simp
  with r have d: "transfers st' (name d)
            = Some (e\<lparr>size_stats := totalSize fs, transferred := transferred e + totalSize (take k fs)\<rparr>)"
    by (simp add: entryPlus_Some)
  have post: "transfers st' (name s)
             = map_option (\<lambda>e'. if enabled e' then e'\<lparr>size_stats := totalSize fs\<rparr> else e')
                 (transfers st (name s))" if "s \<in> set post" for s
  proof -
    from that assms(5) have "name s \<in> name ` set servers" by simp
    with cov [of "name s"]
    have "snd (setSizes servers (totalSize fs) (transfers st)) (name s)
             = map_option (\<lambda>e'. if enabled e' then e'\<lparr>size_stats := totalSize fs\<rparr> else e')
                 (transfers st (name s))"
      by (cases "transfers st (name s)") simp_all
    with r that show ?thesis unfolding assms(5) by simp
  qed
  from r [THEN conjunct1] d unchanged post show ?thesis by (intro conjI ballI)
qed

text \<open>From a fresh ledger, the transport of the second of two files fails in the pass of A.\<close>

theorem transport_failure_accounting_witness:
  "transfers (fst (snd runFailSecond)) ''A''
     = Some \<lparr>enabled = True, size_stats = 250, transferred = 50\<rparr>
   \<and> lastState (stAB [file50, file200]) (butlast (fst runFailSecond)) = fst (snd runFailSecond)
   \<and> transfers (fst (snd runFailSecond)) ''B''
     = Some \<lparr>enabled = True, size_stats = 250, transferred = 0\<rparr>"
proof -
  have h1: "sanitizeFiles envFailSecond (cleanPrivateData (stAB [file50, file200])) (files (stAB [file50, file200]))
              = Some [file50, file200]"
    by (simp add: data_defs run_defs)
  have h2: "[file50, file200] \<noteq> []" by simp
  have h3: "distinct (map name [srvA, srvB])" by (simp add: data_defs)
  have h4: "\<forall>s\<in>set [srvA, srvB]. transfers (stAB [file50, file200]) (name s) \<noteq> None"
    by (simp add: data_defs run_defs)
  have h5: "[srvA, srvB] = [] @ srvA # [srvB]" by simp
  have h6: "transfers (stAB [file50, file200]) (name srvA)
              = Some \<lparr>enabled = True, size_stats = 0, transferred = 0\<rparr>"
    by (simp add: data_defs run_defs)
  have b: "transfers (stAB [file50, file200]) ''B''
              = Some \<lparr>enabled = True, size_stats = 0, transferred = 0\<rparr>"
    by (simp add: data_defs run_defs)
  have h7: "upload envFailSecond [srvA, srvB] (stAB [file50, file200])
              = (fst runFailSecond, fst (snd runFailSecond), Rejected (UploadRejected (name srvA) 1))"
    by (simp add: runFailSecond_def prod_eq_iff data_defs run_defs)
  from transport_failure_accounting [OF h1 h2 h3 h4 h5 h6 h7] b show ?thesis
    by (simp add: srvA_def srvB_def file50_def file200_def totalSize_def)
qed

section \<open>Claim C1: a rejected call\<close>




section \<open>Claim C2: the invalidation of the query cache\<close>

text \<open>
  The claim as stated fails: with one server and one file of 50 bytes whose transport
  fails, the ledger shows size 50 and transferred 0, but \<^verbatim>\<open>invalidateQueries\<close> is never
  called and the selection is not cleared.
\<close>

theorem invalidateQueries_after_failure_counterexample:
  "count_list (map fst (fst (upload envFailA [srvA] (stA [file50])))) (InvalidateQueries ''A'') = 0
   \<and> transfers (fst (snd (upload envFailA [srvA] (stA [file50])))) ''A'' = Some \<lparr>enabled = True, size_stats = 50, transferred = 0\<rparr>
   \<and> files (fst (snd (upload envFailA [srvA] (stA [file50])))) = [file50]"
  by (simp add: data_defs run_defs)

text \<open>
  Claim C2, amended. In a batch over servers with unique names, \<^verbatim>\<open>invalidateQueries\<close> is
  called exactly once for every enabled server whose pass runs through all files, and
  never for a disabled server or another name. When \<open>upload\<close> is rejected in the pass of
  server \<open>d\<close>, it is called once for each enabled server before \<open>d\<close>, and not at all for
  \<open>d\<close> and for the servers after \<open>d\<close>.
\<close>

theorem invalidateQueries_per_completed_pass:
  assumes "sanitizeFiles env (cleanPrivateData st) (files st) = Some fs" and "fs \<noteq> []"
    and "distinct (map name servers)"
    and "upload env servers st = (tr, st', out)"
  shows "(out = Fulfilled \<longrightarrow>
            (\<forall>n. count_list (map fst tr) (InvalidateQueries n)
                   = (if n \<in> name ` set servers \<and> isEnabled (transfers st) n then 1 else 0)))
       \<and> (\<forall>pre d post err. servers = pre @ d # post \<and> out = Rejected err \<and> errServer err = Some (name d) \<longrightarrow>
            count_list (map fst tr) (InvalidateQueries (name d)) = 0
            \<and> (\<forall>s\<in>set post. count_list (map fst tr) (InvalidateQueries (name s)) = 0)
            \<and> (\<forall>s\<in>set pre. count_list (map fst tr) (InvalidateQueries (name s))
                   = (if isEnabled (transfers st) (name s) then 1 else 0)))"
proof -
  have p1: "count_list (map fst tr) (InvalidateQueries n)
                   = (if n \<in> name ` set servers \<and> isEnabled (transfers st) n then 1 else 0)"
    if out: "out = Fulfilled" for n
    using assms(1,2,4)
  proof (cases rule: upload_settled)
    case (1 t l1 tr1 st1)
    from serverLoop_Fulfilled_count [of env fs servers _ tr1 st1 n] 1(2) out assms(3)
      setSizes_isEnabled [OF 1(1), of n] 1(4)
    show ?thesis
      by simp
  qed
  have p2: "count_list (map fst tr) (InvalidateQueries (name d)) = 0
            \<and> (\<forall>s\<in>set post. count_list (map fst tr) (InvalidateQueries (name s)) = 0)
            \<and> (\<forall>s\<in>set pre. count_list (map fst tr) (InvalidateQueries (name s))
                   = (if isEnabled (transfers st) (name s) then 1 else 0))"
    if a: "servers = pre @ d # post \<and> out = Rejected err \<and> errServer err = Some (name d)"
    for pre d post err
  proof -
    from a assms have up: "distinct (map name (pre @ d # post))"
      "upload env (pre @ d # post) st = (tr, st', Rejected err)" "errServer err = Some (name d)"
      by auto
    from a assms(3) have dist: "distinct (map name pre)" "name d \<notin> name ` set pre"
      "\<forall>s\<in>set post. name s \<notin> name ` set pre" by auto
    from assms(1,2) up show ?thesis
    proof (cases rule: upload_rejected_at)
      case (1 t l1 tra sta trb st1)
      have cnt: "count_list (map fst tr) (InvalidateQueries m)
           = (if m \<in> name ` set pre \<and> isEnabled (transfers st) m then 1 else 0)" for m
        using serverLoop_Fulfilled_count [OF 1(2) dist(1), of m]
          serverPass_Rejected_no_signal [OF 1(3,4), of m]
          setSizes_isEnabled [OF 1(1), of m] 1(6) [of m] by simp
      show ?thesis
        using dist(2,3) by (simp add: cnt)
    qed
  qed
  from p1 p2 show ?thesis by blast
qed

text \<open>One call for A in the run without failure; none at all when the transport to A fails.\<close>

theorem invalidateQueries_per_completed_pass_witness:
  "count_list (map fst (fst runOneOff)) (InvalidateQueries ''A'') = 1
   \<and> count_list (map fst (fst runOneOff)) (InvalidateQueries ''B'') = 0
   \<and> count_list (map fst (fst runFailA)) (InvalidateQueries ''A'') = 0
   \<and> count_list (map fst (fst runFailA)) (InvalidateQueries ''B'') = 0"
proof -
  have h1: "sanitizeFiles envOk (cleanPrivateData stOneOff) (files stOneOff) = Some [file100, file200]"
    by (simp add: data_defs run_defs)
  have h2: "[file100, file200] \<noteq> []" by simp
  have h3: "distinct (map name [srvA, srvB])" by (simp add: data_defs)
  have h4: "upload envOk [srvA, srvB] stOneOff = (fst runOneOff, fst (snd runOneOff), snd (snd runOneOff))"
    by (simp add: runOneOff_def)
  have ok: "snd (snd runOneOff) = Fulfilled"
    by (simp add: runOneOff_def data_defs run_defs)
  have en: "isEnabled (transfers stOneOff) ''A''" "\<not> isEnabled (transfers stOneOff) ''B''"
    by (simp_all add: data_defs run_defs)
  have g1: "sanitizeFiles envFailA (cleanPrivateData (stAB [file50])) (files (stAB [file50])) = Some [file50]"
    by (simp add: data_defs run_defs)
  have g2: "[file50] \<noteq> []" by simp
  have g4: "upload envFailA [srvA, srvB] (stAB [file50]) = (fst runFailA, fst (snd runFailA), snd (snd runFailA))"
    by (simp add: runFailA_def)
  have rej: "[srvA, srvB] = [] @ srvA # [srvB] \<and> snd (snd runFailA) = Rejected (UploadRejected ''A'' 0)
      \<and> errServer (UploadRejected ''A'' 0) = Some (name srvA)"
    by (simp add: runFailA_def data_defs run_defs)
  from invalidateQueries_per_completed_pass [OF h1 h2 h3 h4] ok en have
    "count_list (map fst (fst runOneOff)) (InvalidateQueries ''A'') = 1
   \<and> count_list (map fst (fst runOneOff)) (InvalidateQueries ''B'') = 0"
    by (simp add: srvA_def srvB_def)
  moreover from invalidateQueries_per_completed_pass [OF g1 g2 h3 g4] rej have
   "count_list (map fst (fst runFailA)) (InvalidateQueries (name srvA)) = 0
   \<and> (\<forall>s\<in>set [srvB]. count_list (map fst (fst runFailA)) (InvalidateQueries (name s)) = 0)"
    by blast
  ultimately show ?thesis by (simp add: srvA_def srvB_def)
qed

section \<open>Claim C3: clearing the selection\<close>




end
